theory Spec2Isabelle
  imports Complex_Main "HOL-Library.AList"
begin

section \<open>dev-to-git: the publication pipeline of \<^verbatim>\<open>src/dev-to-git.ts\<close>\<close>

text \<open>
  The program is one TypeScript module: the class \<^verbatim>\<open>DevToGit\<close> (constructor,
  \<^verbatim>\<open>parseRepository\<close>, \<^verbatim>\<open>extractRepository\<close>, \<^verbatim>\<open>readConfigFile\<close>,
  \<^verbatim>\<open>publishArticles\<close>) and the promise chain at the end of the module that logs the
  summary and decides the exit code. Each function is embedded below under its own name.
  Side effects are explicit: a function that logs, publishes or terminates takes the
  process state and returns it updated; a \<^verbatim>\<open>throw\<close> or a rejected promise is the
  \<open>Inl\<close> branch of a sum; \<^verbatim>\<open>process.exit\<close> is a value of type \<open>ending\<close>.
\<close>

subsection \<open>Values\<close>

text \<open>
  What \<^verbatim>\<open>JSON.parse\<close> returns. An object is the list of its own properties in
  property order; \<^verbatim>\<open>undefined\<close> is \<open>None\<close> of \<open>jsvalue option\<close>. Numbers are carried
  around and tested for zero only. A \<open>char\<close> stands for one code unit of a string.
\<close>

datatype jsvalue =
    JNull
  | JBool bool
  | JNum rat
  | JStr string
  | JArr "jsvalue list"
  | JObj "(string \<times> jsvalue) list"

text \<open>Thrown values: a \<^verbatim>\<open>TypeError\<close> of the runtime, the \<^verbatim>\<open>Error()\<close> the module
  itself throws, and whatever a collaborator (file system, JSON parser, article
  publisher) throws.\<close>

datatype fault = TypeError | Error | External string

record Repository =
  username :: string
  name :: string

text \<open>Modelled from the spec: the enumeration \<^verbatim>\<open>UpdateStatus\<close> of
  \<^verbatim>\<open>./dev-to-git.interface\<close> is not among the sources. The spec gives it as the closed
  set created, updated, unchanged, error, malformed front matter; the module names the
  last two \<^verbatim>\<open>ERROR\<close> and \<^verbatim>\<open>FAILED_TO_EXTRACT_FRONT_MATTER\<close>.\<close>

datatype UpdateStatus =
    CREATED
  | UPDATED
  | UNCHANGED
  | ERROR
  | FAILED_TO_EXTRACT_FRONT_MATTER

text \<open>Modelled from the spec: \<^verbatim>\<open>ArticlePublishedStatus\<close> of
  \<^verbatim>\<open>./dev-to-git.interface\<close> is not among the sources. It carries an identifier of the
  article it concerns and an \<^verbatim>\<open>updateStatus\<close>.\<close>

record ArticlePublishedStatus =
  articleId :: string
  updateStatus :: UpdateStatus

text \<open>The options \<^verbatim>\<open>commander\<close> parses from the command line; an option that was not
  given is \<^verbatim>\<open>undefined\<close>. \<^verbatim>\<open>ConfigurationOptions\<close> is the same object once the
  constructor has stored the repository in it.\<close>

record Options =
  config :: string
  devToToken :: "string option"
  repositoryUrl :: "string option"
  silent :: bool

record ConfigurationOptions = Options +
  repository :: Repository

text \<open>A message handed to \<^verbatim>\<open>this.logger\<close>: plain, or wrapped in \<^verbatim>\<open>chalk.red\<close>.\<close>

datatype message = Plain string | Red string

subsection \<open>The rate limiter\<close>

text \<open>\<^verbatim>\<open>const ARTICLE_UPLOAD_INTERVAL = 3000;\<close>, in milliseconds.\<close>

definition ARTICLE_UPLOAD_INTERVAL :: nat where
  "ARTICLE_UPLOAD_INTERVAL = 3000"

text \<open>Modelled from the spec: the package \<^verbatim>\<open>throttled-queue\<close> is not among the sources.
  By the specification (4.4, step 2b) the limiter lets the first submission run without
  delay and spaces consecutive executions by at least the configured interval, from
  start to start; submissions are served in order, one at a time. A queue is its two
  settings, \<open>perInterval\<close> executions per \<open>interval\<close> milliseconds, together with the
  start of the current interval and the number of executions started in it.
  \<open>throttledQueue\<close> builds a queue that has started nothing yet.\<close>

record throttle =
  perInterval :: nat
  interval :: nat
  windowStart :: "nat option"
  admitted :: nat

definition throttledQueue :: "nat \<Rightarrow> nat \<Rightarrow> throttle" where
  "throttledQueue maxRequestsPerInterval ms =
     \<lparr>perInterval = maxRequestsPerInterval, interval = ms, windowStart = None, admitted = 0\<rparr>"

subsection \<open>The environment and the process state\<close>

text \<open>
  What the module reads and calls but does not define. \<open>program\<close> is the parsed
  command line, and \<open>readJson path\<close> is
  \<^verbatim>\<open>JSON.parse(fs.readFileSync(path).toString())\<close>, which throws when the file
  cannot be read or is not JSON.
\<close>

text \<open>Modelled from the spec: the class \<^verbatim>\<open>Article\<close> of \<^verbatim>\<open>./article\<close> and the
  helper \<^verbatim>\<open>formatArticlePublishedStatuses\<close> of \<^verbatim>\<open>./helpers\<close> are not among the
  sources. \<open>publishArticle\<close> is \<^verbatim>\<open>new Article(conf, token).publishArticle()\<close>, the
  capability \<^verbatim>\<open>publish(config, token) -> status\<close>: it acts on the outside world
  \<open>'w\<close> and either resolves with a status or rejects with a fault, and
  \<open>elapsed\<close> is the time in milliseconds the call takes on the clock of the process.
  \<open>formatArticlePublishedStatuses\<close> renders the statuses as text.\<close>

record 'w env =
  program :: Options
  readJson :: "string \<Rightarrow> fault + jsvalue"
  publishArticle :: "jsvalue \<Rightarrow> string option \<Rightarrow> 'w \<Rightarrow> (fault + ArticlePublishedStatus) \<times> 'w"
  elapsed :: "jsvalue \<Rightarrow> 'w \<Rightarrow> nat"
  formatArticlePublishedStatuses :: "ArticlePublishedStatus list \<Rightarrow> string"

text \<open>
  The state of the running process: the outside world the publisher acts on, the
  messages handed to the logger (oldest first), the values passed to
  \<^verbatim>\<open>console.error\<close>, and two traces that record what the code did: the configurations
  for which a publish call was started, and the statuses on which the callback of the
  final \<^verbatim>\<open>forEach\<close> was run. For time there are a clock in milliseconds, the queue
  \<^verbatim>\<open>this.queue\<close>, and a third trace: the reading of the clock at the start of each
  publish call.
\<close>

record 'w proc =
  world :: 'w
  logged :: "message list"
  stderr :: "fault list"
  attempted :: "jsvalue list"
  inspected :: "ArticlePublishedStatus list"
  clock :: nat
  queue :: throttle
  started :: "nat list"

text \<open>How the process ends: \<^verbatim>\<open>process.exit(n)\<close>, an exception nothing catches, or the
  event loop running empty. Node exits with code 1 on an uncaught exception and with
  code 0 when nothing is left to do.\<close>

datatype ending = Exit nat | Uncaught fault | Completed

fun exitCode :: "ending \<Rightarrow> nat" where
  "exitCode (Exit n) = n"
| "exitCode (Uncaught e) = 1"
| "exitCode Completed = 0"

text \<open>Modelled from the spec: \<^verbatim>\<open>logBuilder\<close> of \<^verbatim>\<open>./helpers\<close> is not among the
  sources. The logger it builds is recorded as the list of messages it was given;
  whether a message reaches the console (the \<^verbatim>\<open>--silent\<close> flag) is the helper's
  business.\<close>

definition logger :: "message \<Rightarrow> 'w proc \<Rightarrow> 'w proc" where
  "logger m st = st\<lparr>logged := logged st @ [m]\<rparr>"

definition console_error :: "fault \<Rightarrow> 'w proc \<Rightarrow> 'w proc" where
  "console_error e st = st\<lparr>stderr := stderr st @ [e]\<rparr>"

subsection \<open>The repository pattern\<close>

text \<open>
  \<^verbatim>\<open>const repositoryRe: RegExp = /.*\/(.*)\/(.*)\.git/;\<close>

  The pattern is a sequence of three kinds of item: a literal character, \<^verbatim>\<open>.*\<close>, and
  the capturing \<^verbatim>\<open>(.*)\<close>. \<open>matchAt\<close> is the backtracking matcher of the language on
  such sequences, anchored at the start of its input: a star is greedy, so it first
  takes one more character (any character but a line terminator) and goes on, and only
  when the rest of the pattern fails after that does it stop where it is. The result is
  the list of captured groups, in order. \<open>search\<close> is the unanchored search of
  \<^verbatim>\<open>String.prototype.match\<close>: the start positions are tried from left to right.
  The line terminators of the language are LF, CR, U+2028 and U+2029; the last two are
  no \<open>char\<close>, so the strings here are those without them.
\<close>

datatype item = Lit char | DotStar | Group

definition lineTerminator :: "char \<Rightarrow> bool" where
  "lineTerminator c = (c = CHR 0x0A \<or> c = CHR 0x0D)"

fun matchAt :: "item list \<Rightarrow> string \<Rightarrow> string list option" where
  "matchAt [] s = Some []"
| "matchAt (Lit c # r) [] = None"
| "matchAt (Lit c # r) (x # xs) = (if x = c then matchAt r xs else None)"
| "matchAt (DotStar # r) [] = matchAt r []"
| "matchAt (DotStar # r) (x # xs) =
     (if lineTerminator x then matchAt r (x # xs)
      else (case matchAt (DotStar # r) xs of
              Some caps \<Rightarrow> Some caps
            | None \<Rightarrow> matchAt r (x # xs)))"
| "matchAt (Group # r) [] = map_option (Cons []) (matchAt r [])"
| "matchAt (Group # r) (x # xs) =
     (if lineTerminator x then map_option (Cons []) (matchAt r (x # xs))
      else (case matchAt (Group # r) xs of
              Some (g # caps) \<Rightarrow> Some ((x # g) # caps)
            | _ \<Rightarrow> map_option (Cons []) (matchAt r (x # xs))))"

fun search :: "item list \<Rightarrow> string \<Rightarrow> string list option" where
  "search re [] = matchAt re []"
| "search re (x # xs) =
     (case matchAt re (x # xs) of Some caps \<Rightarrow> Some caps | None \<Rightarrow> search re xs)"

definition tailRe :: "item list" where
  "tailRe = [Lit CHR ''.'', Lit CHR ''g'', Lit CHR ''i'', Lit CHR ''t'']"

definition repositoryRe :: "item list" where
  "repositoryRe = DotStar # Lit CHR ''/'' # Group # Lit CHR ''/'' # Group # tailRe"

subsection \<open>The repository resolver\<close>

text \<open>
  \<^verbatim>\<open>parseRepository(repo: string | null)\<close>: a falsy argument (\<^verbatim>\<open>null\<close>, \<^verbatim>\<open>undefined\<close>,
  the empty string) returns \<^verbatim>\<open>null\<close> before the pattern is tried; otherwise the two
  groups of the match are \<^verbatim>\<open>match[1]\<close> and \<^verbatim>\<open>match[2]\<close>.
\<close>

definition parseRepository :: "string option \<Rightarrow> Repository option" where
  "parseRepository repo =
     (case repo of
        None \<Rightarrow> None
      | Some s \<Rightarrow>
          if s = [] then None
          else (case search repositoryRe s of
                  Some (g1 # g2 # _) \<Rightarrow> Some \<lparr>username = g1, name = g2\<rparr>
                | _ \<Rightarrow> None))"

text \<open>
  \<^verbatim>\<open>extractRepository\<close> hands \<^verbatim>\<open>packageJson.repository.url\<close> to \<^verbatim>\<open>parseRepository\<close>
  unchecked, so the argument can be any value of the manifest. \<open>getField\<close> is the
  property read \<^verbatim>\<open>v.k\<close> for the keys \<^verbatim>\<open>repository\<close> and \<^verbatim>\<open>url\<close>: it throws on
  \<^verbatim>\<open>null\<close> and \<^verbatim>\<open>undefined\<close>, finds an object's own property, and is \<^verbatim>\<open>undefined\<close> on
  every other value (no prototype defines either key). \<open>parseRepository_any\<close> is
  \<^verbatim>\<open>parseRepository\<close> on such a value: on a truthy value that is not a string,
  \<^verbatim>\<open>repo.match\<close> is not a function.
\<close>

fun getField :: "jsvalue option \<Rightarrow> string \<Rightarrow> fault + jsvalue option" where
  "getField None k = Inl TypeError"
| "getField (Some JNull) k = Inl TypeError"
| "getField (Some (JObj ps)) k = Inr (map_of ps k)"
| "getField (Some v) k = Inr None"

fun parseRepository_any :: "jsvalue option \<Rightarrow> fault + Repository option" where
  "parseRepository_any None = Inr (parseRepository None)"
| "parseRepository_any (Some JNull) = Inr (parseRepository None)"
| "parseRepository_any (Some (JStr s)) = Inr (parseRepository (Some s))"
| "parseRepository_any (Some (JBool b)) = (if b then Inl TypeError else Inr None)"
| "parseRepository_any (Some (JNum x)) = (if x = 0 then Inr None else Inl TypeError)"
| "parseRepository_any (Some (JArr xs)) = Inl TypeError"
| "parseRepository_any (Some (JObj ps)) = Inl TypeError"

definition manifestDiagnostic :: string where
  \<open>manifestDiagnostic =
     ''If you do not specify --repository-url, you must have within your "package.json" a "repository" attribute which is an object and contains itself an attribute "url" like the following: https://github-gitlab-whatever.com/username/repository-name.git - this will be used to generate images links if necessary''\<close>

text \<open>The body of the \<^verbatim>\<open>try\<close> block of \<^verbatim>\<open>extractRepository\<close>.\<close>

definition manifestRepository :: "'w env \<Rightarrow> fault + Repository" where
  "manifestRepository env =
     (case readJson env ''./package.json'' of
        Inl e \<Rightarrow> Inl e
      | Inr packageJson \<Rightarrow>
          (case getField (Some packageJson) ''repository'' of
             Inl e \<Rightarrow> Inl e
           | Inr r \<Rightarrow>
               (case getField r ''url'' of
                  Inl e \<Rightarrow> Inl e
                | Inr u \<Rightarrow>
                    (case parseRepository_any u of
                       Inl e \<Rightarrow> Inl e
                     | Inr None \<Rightarrow> Inl Error
                     | Inr (Some repo) \<Rightarrow> Inr repo))))"

text \<open>\<^verbatim>\<open>extractRepository\<close>: whatever the \<^verbatim>\<open>try\<close> block throws, the \<^verbatim>\<open>catch\<close> logs the
  diagnostic in red and throws a new \<^verbatim>\<open>Error\<close>.\<close>

definition extractRepository :: "'w env \<Rightarrow> 'w proc \<Rightarrow> (fault + Repository) \<times> 'w proc" where
  "extractRepository env st =
     (case manifestRepository env of
        Inr repo \<Rightarrow> (Inr repo, st)
      | Inl e \<Rightarrow> (Inl Error, logger (Red manifestDiagnostic) st))"

text \<open>Line 47 of the constructor:
  \<^verbatim>\<open>this.parseRepository(program.repositoryUrl) || this.extractRepository()\<close>.\<close>

definition resolveRepository :: "'w env \<Rightarrow> 'w proc \<Rightarrow> (fault + Repository) \<times> 'w proc" where
  "resolveRepository env st =
     (case parseRepository (repositoryUrl (program env)) of
        Some repo \<Rightarrow> (Inr repo, st)
      | None \<Rightarrow> extractRepository env st)"

text \<open>
  The constructor. The exception of \<^verbatim>\<open>extractRepository\<close> is caught by nothing: the
  object is built at the top level of the module. A missing (falsy) token is reported
  and ends the process with \<^verbatim>\<open>process.exit(1)\<close>. Its last statement is
  \<^verbatim>\<open>this.queue = throttledQueue(1, ARTICLE_UPLOAD_INTERVAL)\<close>.
\<close>

definition tokenDiagnostic :: string where
  "tokenDiagnostic =
     ''DEV_TO_GIT_TOKEN environment variable, or --dev-to-token argument is required''"

definition DevToGit_new ::
  "'w env \<Rightarrow> 'w proc \<Rightarrow> (ending + ConfigurationOptions) \<times> 'w proc" where
  "DevToGit_new env st =
     (case resolveRepository env st of
        (Inl e, st') \<Rightarrow> (Inl (Uncaught e), st')
      | (Inr repo, st') \<Rightarrow>
          if devToToken (program env) = None \<or> devToToken (program env) = Some []
          then (Inl (Exit 1), logger (Red tokenDiagnostic) st')
          else (Inr \<lparr>config = config (program env),
                     devToToken = devToToken (program env),
                     repositoryUrl = repositoryUrl (program env),
                     silent = silent (program env),
                     repository = repo\<rparr>,
                st'\<lparr>queue := throttledQueue 1 ARTICLE_UPLOAD_INTERVAL\<rparr>))"

subsection \<open>The configuration loader\<close>

definition getConfigPath :: "ConfigurationOptions \<Rightarrow> string" where
  "getConfigPath cfg = config cfg"

text \<open>The decimal numeral of an array index, as a property key.\<close>

fun decimal :: "nat \<Rightarrow> string" where
  "decimal n =
     (if n < 10 then [char_of (48 + n)]
      else decimal (n div 10) @ [char_of (48 + n mod 10)])"

text \<open>
  The own enumerable properties that the spread \<^verbatim>\<open>{...v}\<close> copies: those of an object;
  the elements of an array and the characters of a string under their indices; none
  for \<^verbatim>\<open>null\<close>, a boolean or a number.
\<close>

fun ownProperties :: "jsvalue \<Rightarrow> (string \<times> jsvalue) list" where
  "ownProperties (JObj ps) = ps"
| "ownProperties (JArr xs) = zip (map decimal [0..<length xs]) xs"
| "ownProperties (JStr s) = zip (map decimal [0..<length s]) (map (\<lambda>c. JStr [c]) s)"
| "ownProperties v = []"

definition repositoryValue :: "Repository \<Rightarrow> jsvalue" where
  "repositoryValue r = JObj [(''username'', JStr (username r)), (''name'', JStr (name r))]"

text \<open>
  \<^verbatim>\<open>readConfigFile\<close>: the parsed file is used as an array without a check
  (\<^verbatim>\<open>// @todo check structure of the object\<close>), so \<^verbatim>\<open>.map\<close> throws a
  \<^verbatim>\<open>TypeError\<close> on anything else. Each element becomes
  \<^verbatim>\<open>{...articleConfigFile, repository: this.configuration.repository}\<close>: the
  property \<^verbatim>\<open>repository\<close> is overwritten in place when the element has one and added
  last otherwise.
\<close>

definition readConfigFile :: "'w env \<Rightarrow> ConfigurationOptions \<Rightarrow> fault + jsvalue list" where
  "readConfigFile env cfg =
     (case readJson env (getConfigPath cfg) of
        Inl e \<Rightarrow> Inl e
      | Inr (JArr articleConfigFiles) \<Rightarrow>
          Inr (map (\<lambda>articleConfigFile.
                      JObj (AList.update ''repository'' (repositoryValue (repository cfg))
                              (ownProperties articleConfigFile)))
                   articleConfigFiles)
      | Inr _ \<Rightarrow> Inl TypeError)"

subsection \<open>The pipeline\<close>

text \<open>Modelled from the spec: the call \<^verbatim>\<open>this.queue(fn)\<close> of the package
  \<^verbatim>\<open>throttled-queue\<close>, not among the sources. \<open>admit\<close> is the wait before a submitted
  unit of work starts. With no interval begun, or the current one over, the unit starts
  now and begins a new interval. Within the current interval it starts now while fewer
  than \<open>perInterval\<close> executions have started in it; otherwise the queue waits for the
  end of the interval, which moves the clock there, and the unit starts the next one.
  \<open>this_queue\<close> then runs the unit once, and the promise it returns settles as the unit
  does.\<close>

definition admit :: "'w proc \<Rightarrow> 'w proc" where
  "admit st =
     (case windowStart (queue st) of
        None \<Rightarrow> st\<lparr>queue := (queue st)\<lparr>windowStart := Some (clock st), admitted := 1\<rparr>\<rparr>
      | Some begun \<Rightarrow>
          if begun + interval (queue st) \<le> clock st
          then st\<lparr>queue := (queue st)\<lparr>windowStart := Some (clock st), admitted := 1\<rparr>\<rparr>
          else if admitted (queue st) < perInterval (queue st)
          then st\<lparr>queue := (queue st)\<lparr>admitted := admitted (queue st) + 1\<rparr>\<rparr>
          else st\<lparr>clock := begun + interval (queue st),
                  queue := (queue st)\<lparr>windowStart := Some (begun + interval (queue st)),
                                       admitted := 1\<rparr>\<rparr>)"

definition this_queue ::
  "('w proc \<Rightarrow> (fault + 'a) \<times> 'w proc) \<Rightarrow> 'w proc \<Rightarrow> (fault + 'a) \<times> 'w proc" where
  "this_queue fn st = fn (admit st)"

text \<open>One call \<^verbatim>\<open>new Article(articleConf, token).publishArticle()\<close>. \<open>afterCall\<close> is
  what it leaves in the state: the new world, the configuration in the trace of
  attempts, the time of its start in the trace of starts, and the clock advanced by the
  time the call took.\<close>

definition afterCall :: "'w env \<Rightarrow> jsvalue \<Rightarrow> 'w \<Rightarrow> 'w proc \<Rightarrow> 'w proc" where
  "afterCall env articleConf w' st =
     st\<lparr>world := w',
        attempted := attempted st @ [articleConf],
        started := started st @ [clock st],
        clock := clock st + elapsed env articleConf (world st)\<rparr>"

definition Article_publishArticle ::
  "'w env \<Rightarrow> jsvalue \<Rightarrow> string option \<Rightarrow> 'w proc \<Rightarrow> (fault + ArticlePublishedStatus) \<times> 'w proc" where
  "Article_publishArticle env articleConf token st =
     (case publishArticle env articleConf token (world st) of
        (r, w') \<Rightarrow> (r, afterCall env articleConf w' st))"

text \<open>
  The \<^verbatim>\<open>for ... of\<close> loop of \<^verbatim>\<open>publishArticles\<close>, with the array
  \<^verbatim>\<open>articlePublishedStatuses\<close> as an accumulator. Each turn awaits the queued unit of
  work, which pushes the status of the article; a rejection leaves the loop and
  rejects the promise of \<^verbatim>\<open>publishArticles\<close>.
\<close>

fun publishLoop ::
  "'w env \<Rightarrow> ConfigurationOptions \<Rightarrow> jsvalue list \<Rightarrow> ArticlePublishedStatus list \<Rightarrow> 'w proc
     \<Rightarrow> (fault + ArticlePublishedStatus list) \<times> 'w proc" where
  "publishLoop env cfg [] articlePublishedStatuses st = (Inr articlePublishedStatuses, st)"
| "publishLoop env cfg (articleConf # rest) articlePublishedStatuses st =
     (case this_queue
             (\<lambda>st. case Article_publishArticle env articleConf (devToToken cfg) st of
                      (Inl e, st') \<Rightarrow> (Inl e, st')
                    | (Inr status, st') \<Rightarrow> (Inr (articlePublishedStatuses @ [status]), st'))
             st of
        (Inl e, st') \<Rightarrow> (Inl e, st')
      | (Inr pushed, st') \<Rightarrow> publishLoop env cfg rest pushed st')"

definition publishArticles ::
  "'w env \<Rightarrow> ConfigurationOptions \<Rightarrow> 'w proc \<Rightarrow> (fault + ArticlePublishedStatus list) \<times> 'w proc" where
  "publishArticles env cfg st =
     (case readConfigFile env cfg of
        Inl e \<Rightarrow> (Inl e, st)
      | Inr articles \<Rightarrow> publishLoop env cfg articles [] st)"

subsection \<open>The summary and the exit code\<close>

definition failed :: "ArticlePublishedStatus \<Rightarrow> bool" where
  "failed article =
     (updateStatus article = ERROR \<or> updateStatus article = FAILED_TO_EXTRACT_FRONT_MATTER)"

text \<open>
  \<^verbatim>\<open>res.articles.forEach(article => { if (...) { process.exit(1); } })\<close>: the callback
  is run on the statuses in order; \<^verbatim>\<open>process.exit\<close> does not return, so the first
  failed status ends the process there.
\<close>

fun forEach_exit :: "ArticlePublishedStatus list \<Rightarrow> 'w proc \<Rightarrow> ending \<times> 'w proc" where
  "forEach_exit [] st = (Completed, st)"
| "forEach_exit (article # rest) st =
     (if failed article
      then (Exit 1, st\<lparr>inspected := inspected st @ [article]\<rparr>)
      else forEach_exit rest (st\<lparr>inspected := inspected st @ [article]\<rparr>))"

text \<open>The two \<^verbatim>\<open>.then\<close> handlers: format the statuses, log the text, decide.\<close>

definition onPublished :: "'w env \<Rightarrow> ArticlePublishedStatus list \<Rightarrow> 'w proc \<Rightarrow> ending \<times> 'w proc" where
  "onPublished env articles st =
     forEach_exit articles (logger (Plain (formatArticlePublishedStatuses env articles)) st)"

definition publishDiagnostic :: string where
  "publishDiagnostic = ''An error occurred while publishing the articles''"

text \<open>The \<^verbatim>\<open>.catch\<close> handler.\<close>

definition onRejected :: "fault \<Rightarrow> 'w proc \<Rightarrow> ending \<times> 'w proc" where
  "onRejected error st = (Exit 1, console_error error (logger (Red publishDiagnostic) st))"

text \<open>The module, run from top to bottom.\<close>

definition main :: "'w env \<Rightarrow> 'w proc \<Rightarrow> ending \<times> 'w proc" where
  "main env st =
     (case DevToGit_new env st of
        (Inl ending, st1) \<Rightarrow> (ending, st1)
      | (Inr cfg, st1) \<Rightarrow>
          (case publishArticles env cfg st1 of
             (Inr articles, st2) \<Rightarrow> onPublished env articles st2
           | (Inl error, st2) \<Rightarrow> onRejected error st2))"


subsection \<open>The outcomes of a run, as the specification words them\<close>

text \<open>
  The specification speaks of ``the outcome of publishing the i-th input configuration''.
  \<open>outcomes\<close> is that list, written without the loop, the accumulator and the queue:
  the configurations are published in turn, the first on the world \<open>w\<close> and each next
  one on the world the call before it left behind. An entry is the status the call
  resolved with (\<open>Inr\<close>) or the fault it raised (\<open>Inl\<close>).
\<close>

fun outcomes ::
  "'w env \<Rightarrow> string option \<Rightarrow> jsvalue list \<Rightarrow> 'w \<Rightarrow> (fault + ArticlePublishedStatus) list" where
  "outcomes env token [] w = []"
| "outcomes env token (articleConf # rest) w =
     (case publishArticle env articleConf token w of
        (r, w') \<Rightarrow> r # outcomes env token rest w')"

subsection \<open>Example runs\<close>

text \<open>
  A publisher with scripted answers, for the scenarios of the specification: the world is
  the number of publish calls made so far, and call number \<open>i\<close> is answered by entry
  \<open>i\<close> of the script, a status kind or a fault. The calls take 700, 3200, 5700, ...
  milliseconds: the first is shorter than the interval of the queue, the others longer.
\<close>

definition scriptedPublisher ::
  "(fault + UpdateStatus) list \<Rightarrow> jsvalue \<Rightarrow> string option \<Rightarrow> nat
     \<Rightarrow> (fault + ArticlePublishedStatus) \<times> nat" where
  "scriptedPublisher script articleConf token w =
     (case drop w script of
        [] \<Rightarrow> (Inl (External ''unscripted call''), Suc w)
      | Inl e # _ \<Rightarrow> (Inl e, Suc w)
      | Inr kind # _ \<Rightarrow> (Inr \<lparr>articleId = decimal w, updateStatus = kind\<rparr>, Suc w))"

definition exampleConfigFile :: jsvalue where
  "exampleConfigFile =
     JArr [JObj [(''id'', JNum 1), (''relativePathToArticle'', JStr ''./one.md'')],
           JObj [(''id'', JNum 2), (''relativePathToArticle'', JStr ''./two.md'')],
           JObj [(''id'', JNum 3), (''relativePathToArticle'', JStr ''./three.md'')]]"

definition exampleFiles :: "fault + jsvalue \<Rightarrow> string \<Rightarrow> fault + jsvalue" where
  "exampleFiles manifest path =
     (if path = ''./package.json'' then manifest
      else if path = ''./dev-to-git.json'' then Inr exampleConfigFile
      else Inl (External ''ENOENT''))"

definition exampleEnv ::
  "string option \<Rightarrow> fault + jsvalue \<Rightarrow> (fault + UpdateStatus) list \<Rightarrow> nat env" where
  "exampleEnv url manifest script =
     \<lparr>program = \<lparr>config = ''./dev-to-git.json'', devToToken = Some ''secret'',
                  repositoryUrl = url, silent = False\<rparr>,
      readJson = exampleFiles manifest,
      publishArticle = scriptedPublisher script,
      elapsed = (\<lambda>articleConf w. 700 + 2500 * w),
      formatArticlePublishedStatuses = (\<lambda>articles. concat (map articleId articles))\<rparr>"

definition exampleCfg :: ConfigurationOptions where
  "exampleCfg =
     \<lparr>config = ''./dev-to-git.json'', devToToken = Some ''secret'',
      repositoryUrl = Some ''https://example.com/alice/blog.git'', silent = False,
      repository = \<lparr>username = ''alice'', name = ''blog''\<rparr>\<rparr>"

definition start :: "nat proc" where
  "start = \<lparr>world = 0, logged = [], stderr = [], attempted = [], inspected = [],
             clock = 0, queue = throttledQueue 1 ARTICLE_UPLOAD_INTERVAL, started = []\<rparr>"

section \<open>Properties\<close>

subsection \<open>The matcher\<close>

text \<open>
  A star is characterised by three facts: what it returns is a split of the input
  (soundness), any split whose rest matches makes it succeed (completeness), and no
  longer split than the one it returns has a matching rest (greediness).
\<close>

lemma matchAt_Lit:
  "matchAt (Lit c # r) s = Some caps \<longleftrightarrow> (\<exists>t. s = c # t \<and> matchAt r t = Some caps)"
  by (cases s) auto

lemma group_sound:
  "matchAt (Group # r) s = Some caps \<Longrightarrow>
     \<exists>g caps' t. caps = g # caps' \<and> s = g @ t \<and> (\<forall>c\<in>set g. \<not> lineTerminator c)
        \<and> matchAt r t = Some caps'"
proof (induction s arbitrary: caps)
  case Nil
  then show ?case by auto
next
  case (Cons x xs)
  show ?case
  proof (cases "lineTerminator x")
    case True
    with Cons.prems show ?thesis by auto
  next
    case False
    show ?thesis
    proof (cases "matchAt (Group # r) xs")
      case None
      with False Cons.prems show ?thesis by auto
    next
      case (Some cs)
      from Cons.IH [OF Some] obtain g caps' t where
        *: "cs = g # caps'" "xs = g @ t" "\<forall>c\<in>set g. \<not> lineTerminator c" "matchAt r t = Some caps'"
        by blast
      from False Some * Cons.prems have "caps = (x # g) # caps'" by simp
      moreover have "x # xs = (x # g) @ t" using * by simp
      moreover have "\<forall>c\<in>set (x # g). \<not> lineTerminator c" using * False by simp
      ultimately show ?thesis using *(4) by blast
    qed
  qed
qed

lemma group_not_empty_caps: "matchAt (Group # r) s \<noteq> Some []"
  using group_sound by blast

lemma group_complete:
  "\<forall>c\<in>set g. \<not> lineTerminator c \<Longrightarrow> matchAt r t \<noteq> None \<Longrightarrow>
     matchAt (Group # r) (g @ t) \<noteq> None"
proof (induction g)
  case Nil
  then show ?case by (cases t) (auto split: option.splits list.splits)
next
  case (Cons x g)
  then have "matchAt (Group # r) (g @ t) \<noteq> None" by simp
  then obtain cs where "matchAt (Group # r) (g @ t) = Some cs" by blast
  moreover from this obtain c cs' where "cs = c # cs'"
    using group_not_empty_caps by (cases cs) auto
  ultimately show ?case using Cons.prems by simp
qed

lemma group_greedy:
  "matchAt (Group # r) s = Some (g # caps) \<Longrightarrow> s = g @ h @ t \<Longrightarrow> h \<noteq> [] \<Longrightarrow>
     \<forall>c\<in>set (g @ h). \<not> lineTerminator c \<Longrightarrow> matchAt r t = None"
proof (induction s arbitrary: g caps)
  case Nil
  then show ?case by simp
next
  case (Cons x xs)
  have nl: "\<not> lineTerminator x"
    using Cons.prems(2,3,4) by (cases g; cases h) auto
  show ?case
  proof (cases "matchAt (Group # r) xs")
    case None
    with nl Cons.prems(1) have g: "g = []" by auto
    with Cons.prems obtain h' where h: "h = x # h'" "xs = h' @ t"
      by (cases h) auto
    have "\<forall>c\<in>set h'. \<not> lineTerminator c" using Cons.prems(4) h by simp
    from group_complete [OF this, of r t] None h show ?thesis
      by (cases "matchAt r t") auto
  next
    case (Some cs)
    then obtain g0 caps0 where cs: "cs = g0 # caps0"
      using group_not_empty_caps by (cases cs) auto
    with nl Some Cons.prems(1) have g: "g = x # g0" "caps = caps0" by auto
    with Cons.prems(2) have xs: "xs = g0 @ h @ t" by simp
    have "\<forall>c\<in>set (g0 @ h). \<not> lineTerminator c" using Cons.prems(4) g by simp
    from Cons.IH [OF _ xs Cons.prems(3) this] Some cs show ?thesis by simp
  qed
qed

lemma dotstar_group: "matchAt (DotStar # r) s = map_option tl (matchAt (Group # r) s)"
proof (induction s)
  case Nil
  then show ?case by (simp add: option.map_comp comp_def option.map_ident)
next
  case (Cons x xs)
  show ?case
  proof (cases "matchAt (Group # r) xs")
    case None
    with Cons show ?thesis by (simp add: option.map_comp comp_def option.map_ident)
  next
    case (Some cs)
    then obtain g0 caps0 where "cs = g0 # caps0"
      using group_not_empty_caps by (cases cs) auto
    with Some Cons show ?thesis by (simp add: option.map_comp comp_def option.map_ident)
  qed
qed

lemma dotstar_sound:
  assumes "matchAt (DotStar # r) s = Some caps"
  shows "\<exists>g t. s = g @ t \<and> (\<forall>c\<in>set g. \<not> lineTerminator c) \<and> matchAt r t = Some caps
           \<and> matchAt (Group # r) s = Some (g # caps)"
proof -
  from assms obtain cs where cs: "matchAt (Group # r) s = Some cs" "caps = tl cs"
    by (auto simp: dotstar_group)
  from group_sound [OF cs(1)] cs show ?thesis by auto
qed

lemma dotstar_complete:
  "\<forall>c\<in>set g. \<not> lineTerminator c \<Longrightarrow> matchAt r t \<noteq> None \<Longrightarrow>
     matchAt (DotStar # r) (g @ t) \<noteq> None"
  using group_complete [of g r t] by (simp add: dotstar_group)

lemma search_sound:
  "search re s = Some caps \<Longrightarrow> \<exists>pre t. s = pre @ t \<and> matchAt re t = Some caps"
proof (induction s)
  case Nil
  then show ?case by simp
next
  case (Cons x xs)
  show ?case
  proof (cases "matchAt re (x # xs)")
    case None
    with Cons obtain pre t where "xs = pre @ t" "matchAt re t = Some caps" by auto
    then have "x # xs = (x # pre) @ t \<and> matchAt re t = Some caps" by simp
    then show ?thesis by blast
  next
    case (Some cs)
    with Cons.prems have "x # xs = [] @ (x # xs) \<and> matchAt re (x # xs) = Some caps" by simp
    then show ?thesis by blast
  qed
qed

lemma search_complete:
  "matchAt re t \<noteq> None \<Longrightarrow> search re (pre @ t) \<noteq> None"
proof (induction pre)
  case Nil
  then show ?case by (cases t) (auto split: option.splits)
next
  case (Cons x pre)
  then show ?case by (auto split: option.splits)
qed

lemma tailRe_iff: "matchAt tailRe s = Some caps \<longleftrightarrow> (\<exists>post. s = ''.git'' @ post \<and> caps = [])"
  by (auto simp: tailRe_def matchAt_Lit)

lemma name_tail_complete:
  "\<forall>c\<in>set n. \<not> lineTerminator c \<Longrightarrow> matchAt (Group # tailRe) (n @ ''.git'' @ post) \<noteq> None"
proof -
  assume n: "\<forall>c\<in>set n. \<not> lineTerminator c"
  have "matchAt tailRe (''.git'' @ post) = Some []" by (simp add: tailRe_iff)
  then have "matchAt tailRe (''.git'' @ post) \<noteq> None" by simp
  from group_complete [OF n this] show ?thesis .
qed

lemma user_tail_complete:
  assumes "\<forall>c\<in>set u. \<not> lineTerminator c" "\<forall>c\<in>set n. \<not> lineTerminator c"
  shows "matchAt (Group # Lit CHR ''/'' # Group # tailRe) (u @ ''/'' @ n @ ''.git'' @ post) \<noteq> None"
proof -
  have "matchAt (Lit CHR ''/'' # Group # tailRe) (''/'' @ n @ ''.git'' @ post) \<noteq> None"
    using name_tail_complete [OF assms(2), of post] by simp
  from group_complete [OF assms(1) this] show ?thesis .
qed

lemma matchAt_repositoryRe_shape:
  assumes "matchAt repositoryRe s = Some caps"
  shows "\<exists>a u n post. caps = [u, n] \<and> s = a @ ''/'' @ u @ ''/'' @ n @ ''.git'' @ post
           \<and> CHR ''/'' \<notin> set u \<and> CHR ''/'' \<notin> set n
           \<and> (\<forall>c\<in>set u. \<not> lineTerminator c) \<and> (\<forall>c\<in>set n. \<not> lineTerminator c)
           \<and> (\<forall>h q. h \<noteq> [] \<and> (\<forall>c\<in>set h. \<not> lineTerminator c) \<longrightarrow>
                  ''.git'' @ post \<noteq> h @ ''.git'' @ q)"
proof -
  let ?r1 = "Group # Lit CHR ''/'' # Group # tailRe"
  let ?r2 = "Group # tailRe"
  from assms have m0: "matchAt (DotStar # Lit CHR ''/'' # ?r1) s = Some caps"
    by (simp add: repositoryRe_def)
  from dotstar_sound [OF m0] obtain a t0 where
    a: "s = a @ t0" "\<forall>c\<in>set a. \<not> lineTerminator c"
       "matchAt (Lit CHR ''/'' # ?r1) t0 = Some caps"
       "matchAt (Group # Lit CHR ''/'' # ?r1) s = Some (a # caps)"
    by blast
  from a(3) obtain t1 where t1: "t0 = CHR ''/'' # t1" "matchAt ?r1 t1 = Some caps"
    by (auto simp: matchAt_Lit)
  from group_sound [OF t1(2)] obtain u caps1 t2 where
    u: "caps = u # caps1" "t1 = u @ t2" "\<forall>c\<in>set u. \<not> lineTerminator c"
       "matchAt (Lit CHR ''/'' # ?r2) t2 = Some caps1"
    by blast
  from u(4) obtain t3 where t3: "t2 = CHR ''/'' # t3" "matchAt ?r2 t3 = Some caps1"
    by (auto simp: matchAt_Lit)
  from group_sound [OF t3(2)] obtain n caps2 t4 where
    n: "caps1 = n # caps2" "t3 = n @ t4" "\<forall>c\<in>set n. \<not> lineTerminator c"
       "matchAt tailRe t4 = Some caps2"
    by blast
  from n(4) obtain post where post: "t4 = ''.git'' @ post" "caps2 = []"
    by (auto simp: tailRe_iff)
  have shape: "s = a @ ''/'' @ u @ ''/'' @ n @ ''.git'' @ post"
    using a(1) t1(1) u(2) t3(1) n(2) post(1) by simp
  have caps: "caps = [u, n]" using u(1) n(1) post(2) by simp
  have n_slash: "CHR ''/'' \<notin> set n"
  proof
    assume "CHR ''/'' \<in> set n"
    then obtain n1 n2 where n12: "n = n1 @ CHR ''/'' # n2" by (auto simp: in_set_conv_decomp)
    have g1: "matchAt ?r1 t1 = Some (u # caps1)" using t1(2) u(1) by simp
    have sp: "t1 = u @ (CHR ''/'' # n1) @ (CHR ''/'' # n2 @ ''.git'' @ post)"
      using u(2) t3(1) n(2) post(1) n12 by simp
    have nl: "\<forall>c\<in>set (u @ (CHR ''/'' # n1)). \<not> lineTerminator c"
      using u(3) n(3) n12 by (auto simp: lineTerminator_def)
    have "matchAt (Lit CHR ''/'' # ?r2) (CHR ''/'' # n2 @ ''.git'' @ post) = None"
      by (rule group_greedy [OF g1 sp _ nl]) simp
    moreover have "matchAt ?r2 (n2 @ ''.git'' @ post) \<noteq> None"
      using name_tail_complete [of n2 post] n(3) n12 by simp
    ultimately show False by simp
  qed
  have u_slash: "CHR ''/'' \<notin> set u"
  proof
    assume "CHR ''/'' \<in> set u"
    then obtain u1 u2 where u12: "u = u1 @ CHR ''/'' # u2" by (auto simp: in_set_conv_decomp)
    have sp: "s = a @ (CHR ''/'' # u1) @ (CHR ''/'' # u2 @ ''/'' @ n @ ''.git'' @ post)"
      using shape u12 by simp
    have nl: "\<forall>c\<in>set (a @ (CHR ''/'' # u1)). \<not> lineTerminator c"
      using a(2) u(3) u12 by (auto simp: lineTerminator_def)
    have "matchAt (Lit CHR ''/'' # ?r1) (CHR ''/'' # u2 @ ''/'' @ n @ ''.git'' @ post) = None"
      by (rule group_greedy [OF a(4) sp _ nl]) simp
    moreover have "matchAt ?r1 (u2 @ ''/'' @ n @ ''.git'' @ post) \<noteq> None"
      using user_tail_complete [of u2 n post] u(3) n(3) u12 by simp
    ultimately show False by simp
  qed
  have last: "''.git'' @ post \<noteq> h @ ''.git'' @ q"
    if h: "h \<noteq> []" "\<forall>c\<in>set h. \<not> lineTerminator c" for h q
  proof
    assume eq: "''.git'' @ post = h @ ''.git'' @ q"
    have g2: "matchAt ?r2 t3 = Some (n # caps2)" using t3(2) n(1) by simp
    have sp: "t3 = n @ h @ (''.git'' @ q)" using n(2) post(1) eq by simp
    have nl: "\<forall>c\<in>set (n @ h). \<not> lineTerminator c" using n(3) h(2) by auto
    from group_greedy [OF g2 sp h(1) nl] have "matchAt tailRe (''.git'' @ q) = None" .
    moreover have "matchAt tailRe (''.git'' @ q) = Some []" by (simp add: tailRe_iff)
    ultimately show False by simp
  qed
  from caps shape n_slash u_slash u(3) n(3) last show ?thesis by blast
qed

lemma matchAt_repositoryRe_complete:
  assumes "\<forall>c\<in>set u. \<not> lineTerminator c" "\<forall>c\<in>set n. \<not> lineTerminator c"
  shows "search repositoryRe (pre @ ''/'' @ u @ ''/'' @ n @ ''.git'' @ post) \<noteq> None"
proof -
  have "matchAt (Lit CHR ''/'' # Group # Lit CHR ''/'' # Group # tailRe)
          (''/'' @ u @ ''/'' @ n @ ''.git'' @ post) \<noteq> None"
    using user_tail_complete [OF assms, of post] by simp
  then have "matchAt repositoryRe ([] @ ''/'' @ u @ ''/'' @ n @ ''.git'' @ post) \<noteq> None"
    unfolding repositoryRe_def by (intro dotstar_complete) simp_all
  then show ?thesis using search_complete [of repositoryRe _ pre] by simp
qed


text \<open>Where a list splits at the last occurrence of an element is determined by the
  list.\<close>

lemma first_split_unique:
  "c \<notin> set as \<Longrightarrow> c \<notin> set as' \<Longrightarrow> as @ c # bs = as' @ c # bs' \<Longrightarrow> as = as' \<and> bs = bs'"
proof (induction as arbitrary: as')
  case Nil
  then show ?case by (cases as') auto
next
  case (Cons a as)
  then show ?case by (cases as') auto
qed

lemma last_split_unique:
  assumes "xs @ c # ys = xs' @ c # ys'" "c \<notin> set ys" "c \<notin> set ys'"
  shows "xs = xs' \<and> ys = ys'"
proof -
  from assms(1) have "rev (xs @ c # ys) = rev (xs' @ c # ys')" by simp
  then have "rev ys @ c # rev xs = rev ys' @ c # rev xs'" by simp
  from first_split_unique [OF _ _ this] assms(2,3) show ?thesis by simp
qed

lemma suffix_of_longer:
  assumes "X @ Y = Z @ W" "length W \<le> length Y"
  shows "\<exists>h. Y = h @ W"
proof -
  from assms(1) consider us where "X = Z @ us" "us @ Y = W" | us where "X @ us = Z" "Y = us @ W"
    by (auto simp: append_eq_append_conv2)
  then show ?thesis
  proof cases
    case 1
    with assms(2) have "us = []" by (cases us) auto
    with 1 have "Y = [] @ W" by simp
    then show ?thesis by blast
  next
    case 2
    then show ?thesis by blast
  qed
qed

lemma search_first: "matchAt re s = Some caps \<Longrightarrow> search re s = Some caps"
  by (cases s) auto

text \<open>On a string without line terminators that ends in \<^verbatim>\<open>/u/n.git\<close>, with no slash
  in \<open>u\<close> and \<open>n\<close>, the groups are exactly \<open>u\<close> and \<open>n\<close>.\<close>

lemma matchAt_repositoryRe_exact:
  assumes nl: "\<forall>c\<in>set (pre @ u @ n). \<not> lineTerminator c"
    and u: "CHR ''/'' \<notin> set u" and n: "CHR ''/'' \<notin> set n"
  shows "matchAt repositoryRe (pre @ ''/'' @ u @ ''/'' @ n @ ''.git'') = Some [u, n]"
proof -
  let ?s = "pre @ ''/'' @ u @ ''/'' @ n @ ''.git''"
  have "matchAt (Lit CHR ''/'' # Group # Lit CHR ''/'' # Group # tailRe)
          (''/'' @ u @ ''/'' @ n @ ''.git'' @ []) \<noteq> None"
    using user_tail_complete [of u n "[]"] nl by simp
  then have "matchAt repositoryRe (pre @ ''/'' @ u @ ''/'' @ n @ ''.git'' @ []) \<noteq> None"
    unfolding repositoryRe_def using nl by (intro dotstar_complete) simp_all
  then obtain caps where c: "matchAt repositoryRe ?s = Some caps" by auto
  from matchAt_repositoryRe_shape [OF c] obtain a u' n' post where
    sh: "caps = [u', n']" "?s = a @ ''/'' @ u' @ ''/'' @ n' @ ''.git'' @ post"
        "CHR ''/'' \<notin> set u'" "CHR ''/'' \<notin> set n'"
    and last: "\<forall>h q. h \<noteq> [] \<and> (\<forall>c\<in>set h. \<not> lineTerminator c) \<longrightarrow>
                  ''.git'' @ post \<noteq> h @ ''.git'' @ q"
    by blast
  have all_nl: "\<forall>c\<in>set ?s. \<not> lineTerminator c"
    using nl by (auto simp: lineTerminator_def)
  have post: "post = []"
  proof (rule ccontr)
    assume ne: "post \<noteq> []"
    have eq: "(a @ ''/'' @ u' @ ''/'' @ n') @ (''.git'' @ post)
                = (pre @ ''/'' @ u @ ''/'' @ n) @ ''.git''"
      using sh(2) by simp
    from suffix_of_longer [OF eq] obtain h where h: "''.git'' @ post = h @ ''.git''"
      by auto
    then have "length (''.git'' @ post) = length (h @ ''.git'')" by simp
    with ne have hne: "h \<noteq> []" by auto
    have "set h \<subseteq> set (''.git'' @ post)" unfolding h by auto
    also have "\<dots> \<subseteq> set ?s" unfolding sh(2) by auto
    finally have "\<forall>c\<in>set h. \<not> lineTerminator c" using all_nl by blast
    with last hne have "''.git'' @ post \<noteq> h @ ''.git'' @ []" by blast
    with h show False by simp
  qed
  have "(a @ ''/'' @ u') @ CHR ''/'' # (n' @ ''.git'') = (pre @ ''/'' @ u) @ CHR ''/'' # (n @ ''.git'')"
    using sh(2) post by simp
  from last_split_unique [OF this] sh(4) n
  have 1: "a @ ''/'' @ u' = pre @ ''/'' @ u" and 2: "n' = n" by auto
  from 1 have "a @ CHR ''/'' # u' = pre @ CHR ''/'' # u" by simp
  from last_split_unique [OF this] sh(3) u have "u' = u" by auto
  with 2 sh(1) c show ?thesis by simp
qed

lemma search_repositoryRe_exact:
  assumes "\<forall>c\<in>set (pre @ u @ n). \<not> lineTerminator c"
    and "CHR ''/'' \<notin> set u" and "CHR ''/'' \<notin> set n"
  shows "search repositoryRe (pre @ ''/'' @ u @ ''/'' @ n @ ''.git'') = Some [u, n]"
  by (rule search_first [OF matchAt_repositoryRe_exact [OF assms]])

text \<open>No item of the pattern takes a line terminator, so a match never reaches beyond
  one, and a start position in front of a line terminator sees only the text up to it.\<close>

lemma matchAt_cut:
  assumes "lineTerminator c"
  shows "\<forall>l. Lit l \<in> set re \<longrightarrow> \<not> lineTerminator l \<Longrightarrow>
           matchAt re (t @ c # rest) = matchAt re t"
proof (induction re t rule: matchAt.induct)
  case (1 s)
  then show ?case by simp
next
  case (2 l r)
  with assms show ?case by auto
next
  case (3 l r x xs)
  then show ?case by simp
next
  case (4 r)
  with assms show ?case by simp
next
  case (5 r x xs)
  then show ?case by (simp split: option.splits)
next
  case (6 r)
  with assms show ?case by simp
next
  case (7 r x xs)
  then show ?case by (simp split: option.splits list.splits)
qed

lemma search_skip:
  assumes "lineTerminator c" and "\<forall>l. Lit l \<in> set re \<longrightarrow> \<not> lineTerminator l"
  shows "search re e = None \<Longrightarrow> search re (e @ c # rest) = search re rest"
proof (induction e)
  case Nil
  then have "matchAt re [] = None" by simp
  with matchAt_cut [OF assms, of "[]" rest] have "matchAt re (c # rest) = None" by simp
  then show ?case by simp
next
  case (Cons x e)
  then have none: "matchAt re (x # e) = None" and e: "search re e = None"
    by (auto split: option.splits)
  from matchAt_cut [OF assms, of "x # e" rest] none
  have "matchAt re (x # e @ c # rest) = None" by simp
  with Cons.IH [OF e] show ?case by simp
qed

lemma repositoryRe_literals: "\<forall>l. Lit l \<in> set repositoryRe \<longrightarrow> \<not> lineTerminator l"
  by (auto simp: repositoryRe_def tailRe_def lineTerminator_def)


lemma search_repositoryRe_shape:
  assumes "search repositoryRe s = Some caps"
  shows "\<exists>pre u n post. caps = [u, n] \<and> s = pre @ ''/'' @ u @ ''/'' @ n @ ''.git'' @ post
           \<and> CHR ''/'' \<notin> set u \<and> CHR ''/'' \<notin> set n"
proof -
  from search_sound [OF assms] obtain p t where
    pt: "s = p @ t" "matchAt repositoryRe t = Some caps" by blast
  from matchAt_repositoryRe_shape [OF pt(2)] obtain a u n post where
    *: "caps = [u, n]" "t = a @ ''/'' @ u @ ''/'' @ n @ ''.git'' @ post"
       "CHR ''/'' \<notin> set u" "CHR ''/'' \<notin> set n" by blast
  have "s = (p @ a) @ ''/'' @ u @ ''/'' @ n @ ''.git'' @ post" using pt(1) *(2) by simp
  with * show ?thesis by blast
qed

lemma parseRepository_of_search:
  "search repositoryRe s = Some [u, n] \<Longrightarrow>
     parseRepository (Some s) = Some \<lparr>username = u, name = n\<rparr>"
  by (cases s) (auto simp: parseRepository_def repositoryRe_def)

lemma parseRepository_no_match:
  "search repositoryRe s = None \<Longrightarrow> parseRepository (Some s) = None"
  by (simp add: parseRepository_def)

lemma search_of_parseRepository_None:
  assumes "parseRepository (Some e) = None"
  shows "search repositoryRe e = None"
proof (rule ccontr)
  assume "search repositoryRe e \<noteq> None"
  then obtain caps where m: "search repositoryRe e = Some caps" by blast
  from search_repositoryRe_shape [OF m] obtain u n where "caps = [u, n]" by blast
  with m have "parseRepository (Some e) = Some \<lparr>username = u, name = n\<rparr>"
    by (simp add: parseRepository_of_search)
  with assms show False by simp
qed

lemma parseRepository_Some_search:
  assumes "parseRepository (Some s) = Some r"
  shows "search repositoryRe s = Some [username r, name r]"
proof -
  from assms obtain caps where m: "search repositoryRe s = Some caps"
    by (auto simp: parseRepository_def split: if_splits option.splits)
  from search_repositoryRe_shape [OF m] obtain u n where c: "caps = [u, n]" by blast
  with m have "parseRepository (Some s) = Some \<lparr>username = u, name = n\<rparr>"
    by (simp add: parseRepository_of_search)
  with assms have "r = \<lparr>username = u, name = n\<rparr>" by simp
  with m c show ?thesis by simp
qed

lemma search_earlier_line:
  "search repositoryRe (''a/b/c.git'' @ [CHR 0x0A] @ ''https://example.com/alice/blog.git'')
     = Some [''b'', ''c'']"
  by code_simp

lemma search_see_also: "search repositoryRe ''see also'' = None"
  by code_simp

lemma search_alice_blog:
  "search repositoryRe ''https://example.com/alice/blog.git'' = Some [''alice'', ''blog'']"
  by code_simp

lemma search_alice_blog_extra:
  "search repositoryRe ''https://example.com/alice/blog.git/extra'' = Some [''alice'', ''blog'']"
  by code_simp

lemma search_no_git: "search repositoryRe ''https://example.com/alice/blog'' = None"
  by code_simp

subsection \<open>The repository resolver\<close>

text \<open>
  C6. On a string that reads \<^verbatim>\<open><anything>/<username>/<name>.git\<close>, where the two
  segments contain neither a slash nor a line terminator, \<open>parseRepository\<close> returns
  the two segments as they are, provided that \<^verbatim>\<open><anything>\<close> has no line terminator,
  or that \<open>parseRepository\<close> returns \<^verbatim>\<open>null\<close> on the text in front of the last line
  terminator of \<^verbatim>\<open><anything>\<close>. On every string, a \<open>username\<close> and a \<open>name\<close> that
  \<open>parseRepository\<close> returns contain no slash and are the two segments that stand,
  between slashes, immediately before a \<^verbatim>\<open>.git\<close> of the string.
  \<^verbatim>\<open>https://example.com/alice/blog.git\<close> gives \<^verbatim>\<open>alice\<close> and \<^verbatim>\<open>blog\<close>; the same
  address without \<^verbatim>\<open>.git\<close> gives \<^verbatim>\<open>null\<close>.
\<close>

theorem parseRepository_segments:
  "((\<forall>c\<in>set (any @ u @ n). \<not> lineTerminator c)
        \<and> CHR ''/'' \<notin> set u \<and> CHR ''/'' \<notin> set n \<longrightarrow>
      parseRepository (Some (any @ ''/'' @ u @ ''/'' @ n @ ''.git''))
        = Some \<lparr>username = u, name = n\<rparr>)
   \<and> ((\<forall>c\<in>set (line @ u @ n). \<not> lineTerminator c)
        \<and> CHR ''/'' \<notin> set u \<and> CHR ''/'' \<notin> set n
        \<and> lineTerminator t \<and> parseRepository (Some earlier) = None \<longrightarrow>
      parseRepository (Some (earlier @ [t] @ line @ ''/'' @ u @ ''/'' @ n @ ''.git''))
        = Some \<lparr>username = u, name = n\<rparr>)
   \<and> (parseRepository (Some s) = Some r \<longrightarrow>
        CHR ''/'' \<notin> set (username r) \<and> CHR ''/'' \<notin> set (name r)
      \<and> (\<exists>pre post. s = pre @ ''/'' @ username r @ ''/'' @ name r @ ''.git'' @ post))
   \<and> parseRepository (Some ''https://example.com/alice/blog.git'')
        = Some \<lparr>username = ''alice'', name = ''blog''\<rparr>
   \<and> parseRepository (Some ''https://example.com/alice/blog'') = None"
proof (intro conjI impI)
  assume "(\<forall>c\<in>set (any @ u @ n). \<not> lineTerminator c)
        \<and> CHR ''/'' \<notin> set u \<and> CHR ''/'' \<notin> set n"
  then have "search repositoryRe (any @ ''/'' @ u @ ''/'' @ n @ ''.git'') = Some [u, n]"
    by (intro search_repositoryRe_exact) simp_all
  then show "parseRepository (Some (any @ ''/'' @ u @ ''/'' @ n @ ''.git''))
        = Some \<lparr>username = u, name = n\<rparr>"
    by (rule parseRepository_of_search)
next
  assume a: "(\<forall>c\<in>set (line @ u @ n). \<not> lineTerminator c)
        \<and> CHR ''/'' \<notin> set u \<and> CHR ''/'' \<notin> set n
        \<and> lineTerminator t \<and> parseRepository (Some earlier) = None"
  let ?rest = "line @ ''/'' @ u @ ''/'' @ n @ ''.git''"
  from a have e: "search repositoryRe earlier = None"
    by (intro search_of_parseRepository_None) simp
  from a have t: "lineTerminator t" by simp
  have "search repositoryRe (earlier @ t # ?rest) = search repositoryRe ?rest"
    by (rule search_skip [OF t repositoryRe_literals e])
  also from a have "\<dots> = Some [u, n]"
    by (intro search_repositoryRe_exact) simp_all
  finally have "search repositoryRe (earlier @ [t] @ ?rest) = Some [u, n]" by simp
  then show "parseRepository (Some (earlier @ [t] @ ?rest)) = Some \<lparr>username = u, name = n\<rparr>"
    by (rule parseRepository_of_search)
next
  assume r: "parseRepository (Some s) = Some r"
  from search_repositoryRe_shape [OF parseRepository_Some_search [OF r]]
  obtain pre u n post where
    *: "[username r, name r] = [u, n]" "s = pre @ ''/'' @ u @ ''/'' @ n @ ''.git'' @ post"
       "CHR ''/'' \<notin> set u" "CHR ''/'' \<notin> set n" by blast
  then show "CHR ''/'' \<notin> set (username r)" and "CHR ''/'' \<notin> set (name r)" by simp_all
  from * have "s = pre @ ''/'' @ username r @ ''/'' @ name r @ ''.git'' @ post" by simp
  then show "\<exists>pre post. s = pre @ ''/'' @ username r @ ''/'' @ name r @ ''.git'' @ post"
    by blast
next
  show "parseRepository (Some ''https://example.com/alice/blog.git'')
          = Some \<lparr>username = ''alice'', name = ''blog''\<rparr>"
    by (rule parseRepository_of_search [OF search_alice_blog])
next
  show "parseRepository (Some ''https://example.com/alice/blog'') = None"
    by (rule parseRepository_no_match [OF search_no_git])
qed

theorem parseRepository_segments_witness:
  "lineTerminator (CHR 0x0A)
   \<and> parseRepository (Some ''see also'') = None
   \<and> parseRepository
        (Some (''see also'' @ [CHR 0x0A] @ ''https://example.com'' @ ''/'' @ ''alice'' @ ''/''
                 @ ''blog'' @ ''.git''))
        = Some \<lparr>username = ''alice'', name = ''blog''\<rparr>"
proof -
  have t: "lineTerminator (CHR 0x0A)" by (simp add: lineTerminator_def)
  have e: "parseRepository (Some ''see also'') = None"
    by (rule parseRepository_no_match [OF search_see_also])
  have "(\<forall>c\<in>set (''https://example.com'' @ ''alice'' @ ''blog''). \<not> lineTerminator c)
          \<and> CHR ''/'' \<notin> set ''alice'' \<and> CHR ''/'' \<notin> set ''blog''"
    by (simp add: lineTerminator_def)
  with parseRepository_segments
         [of _ "''alice''" "''blog''" "''https://example.com''" "CHR 0x0A" "''see also''"] t e
  show ?thesis by blast
qed

theorem parseRepository_earlier_line_counterexample:
  "''a/b/c.git'' @ [CHR 0x0A] @ ''https://example.com/alice/blog.git''
     = (''a/b/c.git'' @ [CHR 0x0A] @ ''https://example.com'') @ ''/'' @ ''alice'' @ ''/''
         @ ''blog'' @ ''.git''
   \<and> CHR ''/'' \<notin> set ''alice''
   \<and> CHR ''/'' \<notin> set ''blog''
   \<and> parseRepository
        (Some (''a/b/c.git'' @ [CHR 0x0A] @ ''https://example.com/alice/blog.git''))
        = Some \<lparr>username = ''b'', name = ''c''\<rparr>
   \<and> parseRepository
        (Some (''a/b/c.git'' @ [CHR 0x0A] @ ''https://example.com/alice/blog.git''))
        \<noteq> Some \<lparr>username = ''alice'', name = ''blog''\<rparr>"
proof -
  have "parseRepository
          (Some (''a/b/c.git'' @ [CHR 0x0A] @ ''https://example.com/alice/blog.git''))
          = Some \<lparr>username = ''b'', name = ''c''\<rparr>"
    by (rule parseRepository_of_search [OF search_earlier_line])
  then show ?thesis by simp
qed

text \<open>
  C9. The empty string is falsy: \<open>parseRepository\<close> returns \<^verbatim>\<open>null\<close> for it as it does
  for an absent address, so a run given an empty \<^verbatim>\<open>--repository-url\<close> resolves its
  repository exactly as \<open>extractRepository\<close> does, from the manifest, and nothing is
  logged on account of the empty address.
\<close>

theorem parseRepository_empty:
  "parseRepository (Some '''') = None
   \<and> parseRepository (Some '''') = parseRepository None
   \<and> resolveRepository (env\<lparr>program := (program env)\<lparr>repositoryUrl := Some ''''\<rparr>\<rparr>) st
       = extractRepository env st
   \<and> resolveRepository (env\<lparr>program := (program env)\<lparr>repositoryUrl := Some ''''\<rparr>\<rparr>) st
       = resolveRepository (env\<lparr>program := (program env)\<lparr>repositoryUrl := None\<rparr>\<rparr>) st"
  by (simp add: parseRepository_def resolveRepository_def extractRepository_def
      manifestRepository_def)

text \<open>
  C10. The pattern is not anchored. \<open>parseRepository\<close> succeeds on every string that
  contains \<^verbatim>\<open>/<segment>/<segment>.git\<close> with no line terminator in either segment,
  whatever stands before and after; \<^verbatim>\<open>https://example.com/alice/blog.git/extra\<close> gives
  \<^verbatim>\<open>alice\<close> and \<^verbatim>\<open>blog\<close>.
\<close>

theorem parseRepository_unanchored:
  "((\<forall>c\<in>set u. \<not> lineTerminator c) \<and> (\<forall>c\<in>set n. \<not> lineTerminator c) \<longrightarrow>
      parseRepository (Some (pre @ ''/'' @ u @ ''/'' @ n @ ''.git'' @ post)) \<noteq> None)
   \<and> parseRepository (Some ''https://example.com/alice/blog.git/extra'')
        = Some \<lparr>username = ''alice'', name = ''blog''\<rparr>"
proof (intro conjI impI)
  assume nl: "(\<forall>c\<in>set u. \<not> lineTerminator c) \<and> (\<forall>c\<in>set n. \<not> lineTerminator c)"
  let ?s = "pre @ ''/'' @ u @ ''/'' @ n @ ''.git'' @ post"
  from nl have "search repositoryRe ?s \<noteq> None"
    by (intro matchAt_repositoryRe_complete) simp_all
  then obtain caps where m: "search repositoryRe ?s = Some caps" by blast
  from search_repositoryRe_shape [OF m] obtain u' n' where "caps = [u', n']" by blast
  with m have "parseRepository (Some ?s) = Some \<lparr>username = u', name = n'\<rparr>"
    by (simp add: parseRepository_of_search)
  then show "parseRepository (Some ?s) \<noteq> None" by simp
next
  show "parseRepository (Some ''https://example.com/alice/blog.git/extra'')
          = Some \<lparr>username = ''alice'', name = ''blog''\<rparr>"
    by (rule parseRepository_of_search [OF search_alice_blog_extra])
qed

theorem parseRepository_unanchored_witness:
  "parseRepository (Some (''git@example.com:team'' @ ''/'' @ ''alice'' @ ''/'' @ ''blog''
      @ ''.git'' @ ''#main'')) \<noteq> None"
proof -
  have "(\<forall>c\<in>set ''alice''. \<not> lineTerminator c) \<and> (\<forall>c\<in>set ''blog''. \<not> lineTerminator c)"
    by (simp add: lineTerminator_def)
  with parseRepository_unanchored
         [of "''alice''" "''blog''" "''git@example.com:team''" "''#main''"]
  show ?thesis by blast
qed

theorem parseRepository_line_terminator_counterexample:
  "''https://example.com/al'' @ [CHR 0x0A] @ ''ice/blog.git''
     = ''https://example.com'' @ ''/'' @ (''al'' @ [CHR 0x0A] @ ''ice'') @ ''/'' @ ''blog''
         @ ''.git'' @ ''''
   \<and> CHR ''/'' \<notin> set (''al'' @ [CHR 0x0A] @ ''ice'')
   \<and> CHR ''/'' \<notin> set ''blog''
   \<and> parseRepository (Some (''https://example.com/al'' @ [CHR 0x0A] @ ''ice/blog.git'')) = None"
proof -
  have "search repositoryRe (''https://example.com/al'' @ [CHR 0x0A] @ ''ice/blog.git'') = None"
    by code_simp
  then have "parseRepository (Some (''https://example.com/al'' @ [CHR 0x0A] @ ''ice/blog.git''))
      = None"
    by (rule parseRepository_no_match)
  then show ?thesis by simp
qed


subsection \<open>The configuration loader\<close>

lemma readConfigFile_array:
  "readJson env (getConfigPath cfg) = Inr (JArr entries) \<Longrightarrow>
     readConfigFile env cfg =
       Inr (map (\<lambda>entry. JObj (AList.update ''repository'' (repositoryValue (repository cfg))
                                  (ownProperties entry))) entries)"
  by (simp add: readConfigFile_def)

text \<open>
  C8. When the configuration file parses as an array, \<open>readConfigFile\<close> returns one
  object per element, in the order of the file. Each object has the property
  \<^verbatim>\<open>repository\<close> set to the resolved repository and, under every other key, exactly
  what the element has under it; the keys keep their order, \<^verbatim>\<open>repository\<close> staying
  where the element had it or coming last. For an element that is an object these are
  its own properties.
\<close>

theorem readConfigFile_entries:
  assumes "readJson env (getConfigPath cfg) = Inr (JArr entries)"
  shows "\<exists>out. readConfigFile env cfg = Inr out
           \<and> length out = length entries
           \<and> (\<forall>i<length entries. \<exists>props.
                  out ! i = JObj props
                \<and> map_of props ''repository'' = Some (repositoryValue (repository cfg))
                \<and> (\<forall>k. k \<noteq> ''repository'' \<longrightarrow>
                       map_of props k = map_of (ownProperties (entries ! i)) k)
                \<and> map fst props =
                    (if ''repository'' \<in> set (map fst (ownProperties (entries ! i)))
                     then map fst (ownProperties (entries ! i))
                     else map fst (ownProperties (entries ! i)) @ [''repository''])
                \<and> (\<forall>ps. entries ! i = JObj ps \<longrightarrow>
                       props = AList.update ''repository'' (repositoryValue (repository cfg)) ps))"
proof -
  let ?v = "repositoryValue (repository cfg)"
  let ?f = "\<lambda>entry. JObj (AList.update ''repository'' ?v (ownProperties entry))"
  have out: "readConfigFile env cfg = Inr (map ?f entries)"
    by (rule readConfigFile_array [OF assms])
  have "\<exists>props. map ?f entries ! i = JObj props
          \<and> map_of props ''repository'' = Some ?v
          \<and> (\<forall>k. k \<noteq> ''repository'' \<longrightarrow> map_of props k = map_of (ownProperties (entries ! i)) k)
          \<and> map fst props =
              (if ''repository'' \<in> set (map fst (ownProperties (entries ! i)))
               then map fst (ownProperties (entries ! i))
               else map fst (ownProperties (entries ! i)) @ [''repository''])
          \<and> (\<forall>ps. entries ! i = JObj ps \<longrightarrow> props = AList.update ''repository'' ?v ps)"
    if i: "i < length entries" for i
  proof -
    let ?props = "AList.update ''repository'' ?v (ownProperties (entries ! i))"
    have 1: "map ?f entries ! i = JObj ?props" using i by simp
    have 2: "map_of ?props ''repository'' = Some ?v" by (simp add: update_conv')
    have 3: "\<forall>k. k \<noteq> ''repository'' \<longrightarrow> map_of ?props k = map_of (ownProperties (entries ! i)) k"
      by (simp add: update_conv')
    have 4: "map fst ?props =
              (if ''repository'' \<in> set (map fst (ownProperties (entries ! i)))
               then map fst (ownProperties (entries ! i))
               else map fst (ownProperties (entries ! i)) @ [''repository''])"
      by (rule update_keys)
    have 5: "\<forall>ps. entries ! i = JObj ps \<longrightarrow> ?props = AList.update ''repository'' ?v ps"
      by simp
    from 1 2 3 4 5 show ?thesis by blast
  qed
  with out show ?thesis by (intro exI [of _ "map ?f entries"]) simp
qed

theorem readConfigFile_entries_witness:
  "readJson (exampleEnv None (Inl Error) []) (getConfigPath exampleCfg) = Inr exampleConfigFile
   \<and> readConfigFile (exampleEnv None (Inl Error) []) exampleCfg =
       Inr [JObj [(''id'', JNum 1), (''relativePathToArticle'', JStr ''./one.md''),
                  (''repository'', JObj [(''username'', JStr ''alice''), (''name'', JStr ''blog'')])],
            JObj [(''id'', JNum 2), (''relativePathToArticle'', JStr ''./two.md''),
                  (''repository'', JObj [(''username'', JStr ''alice''), (''name'', JStr ''blog'')])],
            JObj [(''id'', JNum 3), (''relativePathToArticle'', JStr ''./three.md''),
                  (''repository'', JObj [(''username'', JStr ''alice''), (''name'', JStr ''blog'')])]]
   \<and> (\<exists>out. readConfigFile (exampleEnv None (Inl Error) []) exampleCfg = Inr out
          \<and> length out = 3)"
proof -
  let ?env = "exampleEnv None (Inl Error) [] :: nat env"
  let ?entries = "[JObj [(''id'', JNum 1), (''relativePathToArticle'', JStr ''./one.md'')],
                   JObj [(''id'', JNum 2), (''relativePathToArticle'', JStr ''./two.md'')],
                   JObj [(''id'', JNum 3), (''relativePathToArticle'', JStr ''./three.md'')]]"
  have h: "readJson ?env (getConfigPath exampleCfg) = Inr (JArr ?entries)"
    by (simp add: exampleEnv_def exampleFiles_def getConfigPath_def exampleCfg_def
        exampleConfigFile_def)
  from readConfigFile_entries [OF h] obtain out where
    out: "readConfigFile ?env exampleCfg = Inr out" "length out = length ?entries"
    by blast
  have ev: "readConfigFile ?env exampleCfg =
       Inr [JObj [(''id'', JNum 1), (''relativePathToArticle'', JStr ''./one.md''),
                  (''repository'', JObj [(''username'', JStr ''alice''), (''name'', JStr ''blog'')])],
            JObj [(''id'', JNum 2), (''relativePathToArticle'', JStr ''./two.md''),
                  (''repository'', JObj [(''username'', JStr ''alice''), (''name'', JStr ''blog'')])],
            JObj [(''id'', JNum 3), (''relativePathToArticle'', JStr ''./three.md''),
                  (''repository'', JObj [(''username'', JStr ''alice''), (''name'', JStr ''blog'')])]]"
    by (subst readConfigFile_array [OF h]) (simp add: repositoryValue_def exampleCfg_def)
  from out have "\<exists>out. readConfigFile ?env exampleCfg = Inr out \<and> length out = 3"
    by simp
  with ev h show ?thesis by (simp add: exampleConfigFile_def)
qed

subsection \<open>The fallback to the manifest\<close>




lemma logger_fields:
  "logged (logger m st) = logged st @ [m]" "world (logger m st) = world st"
  "attempted (logger m st) = attempted st" "stderr (logger m st) = stderr st"
  "inspected (logger m st) = inspected st"
  by (simp_all add: logger_def)

lemma console_error_fields:
  "stderr (console_error e st) = stderr st @ [e]" "world (console_error e st) = world st"
  "attempted (console_error e st) = attempted st" "logged (console_error e st) = logged st"
  "inspected (console_error e st) = inspected st"
  by (simp_all add: console_error_def)



subsection \<open>The pipeline\<close>

lemma admit_fields:
  "world (admit st) = world st" "attempted (admit st) = attempted st"
  "logged (admit st) = logged st" "stderr (admit st) = stderr st"
  "inspected (admit st) = inspected st" "started (admit st) = started st"
  by (simp_all add: admit_def split: option.splits)

lemma afterCall_fields:
  "world (afterCall env articleConf w' st) = w'"
  "attempted (afterCall env articleConf w' st) = attempted st @ [articleConf]"
  "logged (afterCall env articleConf w' st) = logged st"
  "stderr (afterCall env articleConf w' st) = stderr st"
  "inspected (afterCall env articleConf w' st) = inspected st"
  "started (afterCall env articleConf w' st) = started st @ [clock st]"
  "clock (afterCall env articleConf w' st) = clock st + elapsed env articleConf (world st)"
  "queue (afterCall env articleConf w' st) = queue st"
  by (simp_all add: afterCall_def)

text \<open>One turn of the loop: the queued unit of work, on a call that resolves and on a
  call that rejects.\<close>

lemma turn_resolves:
  assumes "publishArticle env articleConf (devToToken cfg) (world st) = (Inr status, w')"
  shows "publishLoop env cfg (articleConf # rest) acc st =
           publishLoop env cfg rest (acc @ [status]) (afterCall env articleConf w' (admit st))"
  using assms by (simp add: this_queue_def Article_publishArticle_def admit_fields)

lemma turn_rejects:
  assumes "publishArticle env articleConf (devToToken cfg) (world st) = (Inl e, w')"
  shows "publishLoop env cfg (articleConf # rest) acc st =
           (Inl e, afterCall env articleConf w' (admit st))"
  using assms by (simp add: this_queue_def Article_publishArticle_def admit_fields)

lemma publishLoop_resolves:
  assumes "\<forall>e. Inl e \<notin> set (outcomes env (devToToken cfg) articles (world st))"
  shows "\<exists>st'. publishLoop env cfg articles acc st =
                  (Inr (acc @ map projr (outcomes env (devToToken cfg) articles (world st))), st')
           \<and> attempted st' = attempted st @ articles
           \<and> logged st' = logged st \<and> stderr st' = stderr st \<and> inspected st' = inspected st"
  using assms
proof (induction articles arbitrary: acc st)
  case Nil
  then show ?case by simp
next
  case (Cons articleConf rest)
  obtain r w' where call: "publishArticle env articleConf (devToToken cfg) (world st) = (r, w')"
    by (cases "publishArticle env articleConf (devToToken cfg) (world st)")
  with Cons.prems obtain status where r: "r = Inr status"
    by (cases r) auto
  let ?st1 = "afterCall env articleConf w' (admit st)"
  have "\<forall>e. Inl e \<notin> set (outcomes env (devToToken cfg) rest (world ?st1))"
    using Cons.prems call by (simp add: afterCall_fields)
  from Cons.IH [OF this, of "acc @ [status]"] obtain st' where
    st': "publishLoop env cfg rest (acc @ [status]) ?st1 =
            (Inr ((acc @ [status]) @ map projr (outcomes env (devToToken cfg) rest (world ?st1))), st')"
      "attempted st' = attempted ?st1 @ rest"
      "logged st' = logged ?st1" "stderr st' = stderr ?st1" "inspected st' = inspected ?st1"
    by blast
  from call r have call': "publishArticle env articleConf (devToToken cfg) (world st) = (Inr status, w')"
    by simp
  have "publishLoop env cfg (articleConf # rest) acc st =
          (Inr (acc @ map projr (outcomes env (devToToken cfg) (articleConf # rest) (world st))), st')"
    unfolding turn_resolves [OF call'] using st'(1) call' by (simp add: afterCall_fields)
  with st'(2-) show ?case by (simp add: afterCall_fields admit_fields)
qed

lemma publishLoop_rejects:
  assumes "k < length articles"
    and "outcomes env (devToToken cfg) articles (world st) ! k = Inl e"
    and "\<forall>i<k. \<exists>s. outcomes env (devToToken cfg) articles (world st) ! i = Inr s"
  shows "\<exists>st'. publishLoop env cfg articles acc st = (Inl e, st')
           \<and> attempted st' = attempted st @ take (Suc k) articles
           \<and> logged st' = logged st \<and> stderr st' = stderr st \<and> inspected st' = inspected st"
  using assms
proof (induction articles arbitrary: k acc st)
  case Nil
  then show ?case by simp
next
  case (Cons articleConf rest)
  obtain r w' where call: "publishArticle env articleConf (devToToken cfg) (world st) = (r, w')"
    by (cases "publishArticle env articleConf (devToToken cfg) (world st)")
  let ?st1 = "afterCall env articleConf w' (admit st)"
  show ?case
  proof (cases k)
    case 0
    with Cons.prems(2) call have "r = Inl e" by simp
    with call have call': "publishArticle env articleConf (devToToken cfg) (world st) = (Inl e, w')"
      by simp
    show ?thesis unfolding turn_rejects [OF call'] using 0
      by (simp add: afterCall_fields admit_fields)
  next
    case (Suc j)
    from Cons.prems(3) Suc have "\<exists>s. outcomes env (devToToken cfg) (articleConf # rest) (world st) ! 0 = Inr s"
      by blast
    with call obtain status where r: "r = Inr status" by auto
    have j: "j < length rest" using Cons.prems(1) Suc by simp
    have at: "outcomes env (devToToken cfg) rest (world ?st1) ! j = Inl e"
      using Cons.prems(2) Suc call by (simp add: afterCall_fields)
    have before: "\<forall>i<j. \<exists>s. outcomes env (devToToken cfg) rest (world ?st1) ! i = Inr s"
    proof (intro allI impI)
      fix i assume "i < j"
      then have "Suc i < k" using Suc by simp
      with Cons.prems(3) obtain s where
        "outcomes env (devToToken cfg) (articleConf # rest) (world st) ! Suc i = Inr s" by blast
      with call show "\<exists>s. outcomes env (devToToken cfg) rest (world ?st1) ! i = Inr s"
        by (simp add: afterCall_fields)
    qed
    from Cons.IH [OF j at before, of "acc @ [status]"] obtain st' where
      st': "publishLoop env cfg rest (acc @ [status]) ?st1 = (Inl e, st')"
        "attempted st' = attempted ?st1 @ take (Suc j) rest"
        "logged st' = logged ?st1" "stderr st' = stderr ?st1" "inspected st' = inspected ?st1"
      by blast
    from call r have call': "publishArticle env articleConf (devToToken cfg) (world st) = (Inr status, w')"
      by simp
    have "publishLoop env cfg (articleConf # rest) acc st = (Inl e, st')"
      unfolding turn_resolves [OF call'] using st'(1) by simp
    with st'(2-) Suc show ?thesis by (simp add: afterCall_fields admit_fields)
  qed
qed

lemma length_outcomes: "length (outcomes env token articles w) = length articles"
  by (induction articles arbitrary: w) (auto split: prod.splits)

lemma publishArticles_loop:
  "readConfigFile env cfg = Inr articles \<Longrightarrow>
     publishArticles env cfg st = publishLoop env cfg articles [] st"
  by (simp add: publishArticles_def)

text \<open>
  C1. When every publish call of a run resolves with a status, of whatever kind,
  \<open>publishArticles\<close> resolves with a list that has one status per configuration, the
  \<open>i\<close>-th being the outcome of publishing the \<open>i\<close>-th configuration; a publish call was
  started for every configuration, in the order of the list.
\<close>

theorem publishArticles_order:
  assumes "readConfigFile env cfg = Inr articles"
    and "\<forall>e. Inl e \<notin> set (outcomes env (devToToken cfg) articles (world st))"
  shows "\<exists>statuses st'. publishArticles env cfg st = (Inr statuses, st')
           \<and> length statuses = length articles
           \<and> (\<forall>i<length articles.
                 outcomes env (devToToken cfg) articles (world st) ! i = Inr (statuses ! i))
           \<and> attempted st' = attempted st @ articles"
proof -
  let ?out = "outcomes env (devToToken cfg) articles (world st)"
  from publishLoop_resolves [OF assms(2), of "[]"] obtain st' where
    st': "publishLoop env cfg articles [] st = (Inr (map projr ?out), st')"
      "attempted st' = attempted st @ articles"
    by auto
  have run: "publishArticles env cfg st = (Inr (map projr ?out), st')"
    using st'(1) by (simp add: publishArticles_loop [OF assms(1)])
  have len: "length (map projr ?out) = length articles" by (simp add: length_outcomes)
  have nth: "?out ! i = Inr (map projr ?out ! i)" if "i < length articles" for i
  proof -
    from that have i: "i < length ?out" by (simp add: length_outcomes)
    then have "?out ! i \<in> set ?out" by simp
    with assms(2) obtain s where "?out ! i = Inr s" by (cases "?out ! i") auto
    with i show ?thesis by simp
  qed
  from run len nth st'(2) show ?thesis by blast
qed

theorem publishArticles_order_witness:
  "readConfigFile (exampleEnv (Some ''https://example.com/alice/blog.git'') (Inl Error)
       [Inr ERROR, Inr CREATED, Inr UNCHANGED]) exampleCfg
     = Inr [JObj [(''id'', JNum 1), (''relativePathToArticle'', JStr ''./one.md''),
                  (''repository'', JObj [(''username'', JStr ''alice''), (''name'', JStr ''blog'')])],
            JObj [(''id'', JNum 2), (''relativePathToArticle'', JStr ''./two.md''),
                  (''repository'', JObj [(''username'', JStr ''alice''), (''name'', JStr ''blog'')])],
            JObj [(''id'', JNum 3), (''relativePathToArticle'', JStr ''./three.md''),
                  (''repository'', JObj [(''username'', JStr ''alice''), (''name'', JStr ''blog'')])]]
   \<and> fst (publishArticles (exampleEnv (Some ''https://example.com/alice/blog.git'') (Inl Error)
       [Inr ERROR, Inr CREATED, Inr UNCHANGED]) exampleCfg start)
     = Inr [\<lparr>articleId = ''0'', updateStatus = ERROR\<rparr>,
            \<lparr>articleId = ''1'', updateStatus = CREATED\<rparr>,
            \<lparr>articleId = ''2'', updateStatus = UNCHANGED\<rparr>]
   \<and> length (attempted (snd (publishArticles
       (exampleEnv (Some ''https://example.com/alice/blog.git'') (Inl Error)
          [Inr ERROR, Inr CREATED, Inr UNCHANGED]) exampleCfg start))) = 3"
proof -
  let ?env = "exampleEnv (Some ''https://example.com/alice/blog.git'') (Inl Error)
                [Inr ERROR, Inr CREATED, Inr UNCHANGED]"
  let ?articles =
    "[JObj [(''id'', JNum 1), (''relativePathToArticle'', JStr ''./one.md''),
            (''repository'', JObj [(''username'', JStr ''alice''), (''name'', JStr ''blog'')])],
      JObj [(''id'', JNum 2), (''relativePathToArticle'', JStr ''./two.md''),
            (''repository'', JObj [(''username'', JStr ''alice''), (''name'', JStr ''blog'')])],
      JObj [(''id'', JNum 3), (''relativePathToArticle'', JStr ''./three.md''),
            (''repository'', JObj [(''username'', JStr ''alice''), (''name'', JStr ''blog'')])]]"
  have json: "readJson ?env (getConfigPath exampleCfg) = Inr exampleConfigFile"
    by (simp add: exampleEnv_def exampleFiles_def getConfigPath_def exampleCfg_def)
  have cfg: "readConfigFile ?env exampleCfg = Inr ?articles"
    unfolding exampleConfigFile_def readConfigFile_array [OF json [unfolded exampleConfigFile_def]]
    by (simp add: repositoryValue_def exampleCfg_def)
  have dec: "decimal 0 = ''0''" "decimal (Suc 0) = ''1''" "decimal (Suc (Suc 0)) = ''2''"
    by code_simp+
  have out: "outcomes ?env (devToToken exampleCfg) ?articles (world start)
               = [Inr \<lparr>articleId = ''0'', updateStatus = ERROR\<rparr>,
                  Inr \<lparr>articleId = ''1'', updateStatus = CREATED\<rparr>,
                  Inr \<lparr>articleId = ''2'', updateStatus = UNCHANGED\<rparr>]"
    using dec by (simp add: exampleEnv_def scriptedPublisher_def start_def del: decimal.simps)
  have ok: "\<forall>e. Inl e \<notin> set (outcomes ?env (devToToken exampleCfg) ?articles (world start))"
    unfolding out by simp
  from publishArticles_order [OF cfg ok] obtain statuses st' where
    run: "publishArticles ?env exampleCfg start = (Inr statuses, st')"
      "length statuses = 3"
      "\<forall>i<3. outcomes ?env (devToToken exampleCfg) ?articles (world start) ! i = Inr (statuses ! i)"
      "attempted st' = attempted start @ ?articles"
    by auto
  note each = run(3) [unfolded out, rule_format]
  have "statuses ! 0 = \<lparr>articleId = ''0'', updateStatus = ERROR\<rparr>"
    using each [of 0] by simp
  moreover have "statuses ! 1 = \<lparr>articleId = ''1'', updateStatus = CREATED\<rparr>"
    using each [of 1] by simp
  moreover have "statuses ! 2 = \<lparr>articleId = ''2'', updateStatus = UNCHANGED\<rparr>"
    using each [of 2] by simp
  ultimately have "statuses = [\<lparr>articleId = ''0'', updateStatus = ERROR\<rparr>,
            \<lparr>articleId = ''1'', updateStatus = CREATED\<rparr>,
            \<lparr>articleId = ''2'', updateStatus = UNCHANGED\<rparr>]"
    using run(2) by (simp add: list_eq_iff_nth_eq less_Suc_eq numeral_3_eq_3 numeral_2_eq_2)
  with run(1,4) cfg show ?thesis by (simp add: start_def)
qed

subsection \<open>Faults\<close>

lemma main_rejected:
  assumes "DevToGit_new env st = (Inr cfg, st1)"
    and "publishArticles env cfg st1 = (Inl e, st2)"
  shows "main env st = (Exit 1, console_error e (logger (Red publishDiagnostic) st2))"
  using assms by (simp add: main_def onRejected_def)

lemma main_published:
  assumes "DevToGit_new env st = (Inr cfg, st1)"
    and "publishArticles env cfg st1 = (Inr articles, st2)"
  shows "main env st = onPublished env articles st2"
  using assms by (simp add: main_def)

text \<open>
  C4. When a publish call of a run raises a fault, the first such call being the one for
  configuration \<open>k\<close>: \<open>publishArticles\<close> rejects with that fault and delivers no list
  of statuses; publish calls were started for the configurations up to \<open>k\<close> and for no
  later one; the only message logged after the constructor is the generic one, in place
  of the summary; the fault goes to \<^verbatim>\<open>console.error\<close>; the process exits with code 1.
\<close>

theorem fault_aborts_run:
  assumes "DevToGit_new env st = (Inr cfg, st1)"
    and "readConfigFile env cfg = Inr articles"
    and "k < length articles"
    and "outcomes env (devToToken cfg) articles (world st1) ! k = Inl e"
    and "\<forall>i<k. \<exists>s. outcomes env (devToToken cfg) articles (world st1) ! i = Inr s"
  shows "\<exists>st2. publishArticles env cfg st1 = (Inl e, st2)
           \<and> attempted st2 = attempted st1 @ take (Suc k) articles
           \<and> main env st = (Exit 1, console_error e (logger (Red publishDiagnostic) st2))
           \<and> exitCode (fst (main env st)) = 1
           \<and> logged (snd (main env st)) = logged st1 @ [Red publishDiagnostic]
           \<and> stderr (snd (main env st)) = stderr st1 @ [e]
           \<and> attempted (snd (main env st)) = attempted st1 @ take (Suc k) articles"
proof -
  from publishLoop_rejects [OF assms(3,4,5), of "[]"] obtain st2 where
    st2: "publishLoop env cfg articles [] st1 = (Inl e, st2)"
      "attempted st2 = attempted st1 @ take (Suc k) articles"
      "logged st2 = logged st1" "stderr st2 = stderr st1"
    by blast
  have run: "publishArticles env cfg st1 = (Inl e, st2)"
    using st2(1) by (simp add: publishArticles_loop [OF assms(2)])
  note m = main_rejected [OF assms(1) run]
  have "exitCode (fst (main env st)) = 1" by (simp add: m)
  moreover have "logged (snd (main env st)) = logged st1 @ [Red publishDiagnostic]"
    by (simp add: m console_error_fields logger_fields st2(3))
  moreover have "stderr (snd (main env st)) = stderr st1 @ [e]"
    by (simp add: m console_error_fields logger_fields st2(4))
  moreover have "attempted (snd (main env st)) = attempted st1 @ take (Suc k) articles"
    by (simp add: m console_error_fields logger_fields st2(2))
  ultimately show ?thesis using run st2(2) m by blast
qed

lemma DevToGit_new_example:
  "DevToGit_new (exampleEnv (Some ''https://example.com/alice/blog.git'') manifest script) start
     = (Inr exampleCfg, start)"
proof -
  let ?env = "exampleEnv (Some ''https://example.com/alice/blog.git'') manifest script"
  have "parseRepository (repositoryUrl (program ?env))
          = Some \<lparr>username = ''alice'', name = ''blog''\<rparr>"
    unfolding exampleEnv_def
    by (simp add: parseRepository_of_search [OF search_alice_blog])
  then have "resolveRepository ?env start
               = (Inr \<lparr>username = ''alice'', name = ''blog''\<rparr>, start)"
    by (simp add: resolveRepository_def)
  moreover have "start\<lparr>queue := throttledQueue 1 ARTICLE_UPLOAD_INTERVAL\<rparr> = start"
    by (simp add: start_def)
  ultimately show ?thesis
    unfolding DevToGit_new_def by (simp add: exampleEnv_def exampleCfg_def)
qed

lemma readConfigFile_example:
  "readConfigFile (exampleEnv url manifest script) exampleCfg
     = Inr [JObj [(''id'', JNum 1), (''relativePathToArticle'', JStr ''./one.md''),
                  (''repository'', JObj [(''username'', JStr ''alice''), (''name'', JStr ''blog'')])],
            JObj [(''id'', JNum 2), (''relativePathToArticle'', JStr ''./two.md''),
                  (''repository'', JObj [(''username'', JStr ''alice''), (''name'', JStr ''blog'')])],
            JObj [(''id'', JNum 3), (''relativePathToArticle'', JStr ''./three.md''),
                  (''repository'', JObj [(''username'', JStr ''alice''), (''name'', JStr ''blog'')])]]"
proof -
  have json: "readJson (exampleEnv url manifest script) (getConfigPath exampleCfg)
                = Inr exampleConfigFile"
    by (simp add: exampleEnv_def exampleFiles_def getConfigPath_def exampleCfg_def)
  show ?thesis
    unfolding exampleConfigFile_def readConfigFile_array [OF json [unfolded exampleConfigFile_def]]
    by (simp add: repositoryValue_def exampleCfg_def)
qed

lemma decimal_digits:
  "decimal 0 = ''0''" "decimal (Suc 0) = ''1''" "decimal (Suc (Suc 0)) = ''2''"
  by code_simp+

theorem fault_aborts_run_witness:
  "fst (publishArticles (exampleEnv (Some ''https://example.com/alice/blog.git'') (Inl Error)
          [Inr CREATED, Inl (External ''ECONNRESET''), Inr CREATED]) exampleCfg start)
     = Inl (External ''ECONNRESET'')
   \<and> fst (main (exampleEnv (Some ''https://example.com/alice/blog.git'') (Inl Error)
          [Inr CREATED, Inl (External ''ECONNRESET''), Inr CREATED]) start) = Exit 1
   \<and> logged (snd (main (exampleEnv (Some ''https://example.com/alice/blog.git'') (Inl Error)
          [Inr CREATED, Inl (External ''ECONNRESET''), Inr CREATED]) start))
       = [Red publishDiagnostic]
   \<and> stderr (snd (main (exampleEnv (Some ''https://example.com/alice/blog.git'') (Inl Error)
          [Inr CREATED, Inl (External ''ECONNRESET''), Inr CREATED]) start))
       = [External ''ECONNRESET'']
   \<and> attempted (snd (main (exampleEnv (Some ''https://example.com/alice/blog.git'') (Inl Error)
          [Inr CREATED, Inl (External ''ECONNRESET''), Inr CREATED]) start))
       = [JObj [(''id'', JNum 1), (''relativePathToArticle'', JStr ''./one.md''),
                (''repository'', JObj [(''username'', JStr ''alice''), (''name'', JStr ''blog'')])],
          JObj [(''id'', JNum 2), (''relativePathToArticle'', JStr ''./two.md''),
                (''repository'', JObj [(''username'', JStr ''alice''), (''name'', JStr ''blog'')])]]"
proof -
  let ?env = "exampleEnv (Some ''https://example.com/alice/blog.git'') (Inl Error)
                [Inr CREATED, Inl (External ''ECONNRESET''), Inr CREATED]"
  let ?articles =
    "[JObj [(''id'', JNum 1), (''relativePathToArticle'', JStr ''./one.md''),
            (''repository'', JObj [(''username'', JStr ''alice''), (''name'', JStr ''blog'')])],
      JObj [(''id'', JNum 2), (''relativePathToArticle'', JStr ''./two.md''),
            (''repository'', JObj [(''username'', JStr ''alice''), (''name'', JStr ''blog'')])],
      JObj [(''id'', JNum 3), (''relativePathToArticle'', JStr ''./three.md''),
            (''repository'', JObj [(''username'', JStr ''alice''), (''name'', JStr ''blog'')])]]"
  have new: "DevToGit_new ?env start = (Inr exampleCfg, start)"
    by (rule DevToGit_new_example)
  have cfg: "readConfigFile ?env exampleCfg = Inr ?articles"
    by (rule readConfigFile_example)
  have out: "outcomes ?env (devToToken exampleCfg) ?articles (world start)
               = [Inr \<lparr>articleId = ''0'', updateStatus = CREATED\<rparr>,
                  Inl (External ''ECONNRESET''),
                  Inr \<lparr>articleId = ''2'', updateStatus = CREATED\<rparr>]"
    using decimal_digits
    by (simp add: exampleEnv_def scriptedPublisher_def start_def del: decimal.simps)
  have k: "Suc 0 < length ?articles" by simp
  have at: "outcomes ?env (devToToken exampleCfg) ?articles (world start) ! Suc 0
              = Inl (External ''ECONNRESET'')"
    unfolding out by simp
  have before: "\<forall>i<Suc 0. \<exists>s. outcomes ?env (devToToken exampleCfg) ?articles (world start) ! i
                  = Inr s"
    unfolding out by simp
  from fault_aborts_run [OF new cfg k at before] obtain st2 where
    "publishArticles ?env exampleCfg start = (Inl (External ''ECONNRESET''), st2)"
    "main ?env start
       = (Exit 1, console_error (External ''ECONNRESET'') (logger (Red publishDiagnostic) st2))"
    "logged (snd (main ?env start)) = logged start @ [Red publishDiagnostic]"
    "stderr (snd (main ?env start)) = stderr start @ [External ''ECONNRESET'']"
    "attempted (snd (main ?env start)) = attempted start @ take (Suc (Suc 0)) ?articles"
    by blast
  then show ?thesis by (simp add: start_def)
qed

subsection \<open>The exit code\<close>

lemma forEach_exit_result:
  "forEach_exit articles st =
     (if \<exists>a\<in>set articles. failed a then Exit 1 else Completed,
      st\<lparr>inspected := inspected st @ takeWhile (\<lambda>a. \<not> failed a) articles
                          @ take 1 (dropWhile (\<lambda>a. \<not> failed a) articles)\<rparr>)"
  by (induction articles arbitrary: st) simp_all

lemma onPublished_result:
  "onPublished env articles st =
     (if \<exists>a\<in>set articles. failed a then Exit 1 else Completed,
      st\<lparr>logged := logged st @ [Plain (formatArticlePublishedStatuses env articles)],
         inspected := inspected st @ takeWhile (\<lambda>a. \<not> failed a) articles
                          @ take 1 (dropWhile (\<lambda>a. \<not> failed a) articles)\<rparr>)"
  by (simp add: onPublished_def forEach_exit_result logger_def)

lemma onPublished_first_failure:
  assumes "failed a" and "\<forall>a'\<in>set before. \<not> failed a'"
  shows "fst (onPublished env (before @ a # after) st) = Exit 1"
    and "inspected (snd (onPublished env (before @ a # after) st)) = inspected st @ before @ [a]"
proof -
  show "fst (onPublished env (before @ a # after) st) = Exit 1"
    using assms(1) by (simp add: onPublished_result)
  have "takeWhile (\<lambda>a. \<not> failed a) (before @ a # after) = before"
    using assms by (simp add: takeWhile_tail)
  moreover have "dropWhile (\<lambda>a. \<not> failed a) (before @ a # after) = a # after"
    using assms by (simp add: dropWhile_append3)
  ultimately show "inspected (snd (onPublished env (before @ a # after) st))
      = inspected st @ before @ [a]"
    by (simp add: onPublished_result)
qed

lemma onPublished_no_failure:
  assumes "\<forall>a'\<in>set articles. \<not> failed a'"
  shows "fst (onPublished env articles st) = Completed"
    and "inspected (snd (onPublished env articles st)) = inspected st @ articles"
proof -
  from assms show "fst (onPublished env articles st) = Completed"
    by (simp add: onPublished_result)
  from assms have "takeWhile (\<lambda>a. \<not> failed a) articles @
      take 1 (dropWhile (\<lambda>a. \<not> failed a) articles) = articles"
    by (simp add: takeWhile_eq_all_conv [THEN iffD2] dropWhile_eq_Nil_conv [THEN iffD2])
  then show "inspected (snd (onPublished env articles st)) = inspected st @ articles"
    unfolding onPublished_result by simp
qed

text \<open>
  C2. The decision on the exit code runs the callback on the statuses in order and stops
  at the first status that failed: the statuses up to and including that one are
  inspected, the process exits there with code 1, and the statuses after it are not
  inspected. When no status failed, every status is inspected and the process is left to
  complete. So the whole list is inspected exactly when no status other than the last
  one failed.
\<close>

theorem exit_decision_stops_at_first_failure:
  "(failed a \<longrightarrow>
        (\<forall>a'\<in>set before. \<not> failed a') \<longrightarrow>
        fst (onPublished env (before @ a # after) st) = Exit 1
      \<and> inspected (snd (onPublished env (before @ a # after) st)) = inspected st @ before @ [a])
   \<and> ((\<forall>a'\<in>set articles. \<not> failed a') \<longrightarrow>
        fst (onPublished env articles st) = Completed
      \<and> inspected (snd (onPublished env articles st)) = inspected st @ articles)
   \<and> (inspected (snd (onPublished env articles st)) = inspected st @ articles
        \<longleftrightarrow> (\<forall>a'\<in>set (butlast articles). \<not> failed a'))"
proof (intro conjI impI)
  assume "failed a" and "\<forall>a'\<in>set before. \<not> failed a'"
  then show "fst (onPublished env (before @ a # after) st) = Exit 1"
    and "inspected (snd (onPublished env (before @ a # after) st)) = inspected st @ before @ [a]"
    by (rule onPublished_first_failure)+
next
  assume "\<forall>a'\<in>set articles. \<not> failed a'"
  then show "fst (onPublished env articles st) = Completed"
    and "inspected (snd (onPublished env articles st)) = inspected st @ articles"
    by (rule onPublished_no_failure)+
next
  show "inspected (snd (onPublished env articles st)) = inspected st @ articles
        \<longleftrightarrow> (\<forall>a'\<in>set (butlast articles). \<not> failed a')"
  proof (cases "\<exists>x\<in>set articles. failed x")
    case False
    then have clean: "\<forall>a'\<in>set articles. \<not> failed a'" by blast
    then have "\<forall>a'\<in>set (butlast articles). \<not> failed a'"
      by (blast dest: in_set_butlastD)
    with onPublished_no_failure(2) [OF clean] show ?thesis by simp
  next
    case True
    from split_list_first_prop [OF True] obtain before x after where
      sp: "articles = before @ x # after" "failed x" "\<forall>a'\<in>set before. \<not> failed a'"
      by blast
    have ins: "inspected (snd (onPublished env articles st)) = inspected st @ before @ [x]"
      unfolding sp(1) by (rule onPublished_first_failure(2) [OF sp(2,3)])
    show ?thesis
    proof (cases "after = []")
      case True
      with sp ins show ?thesis by simp
    next
      case False
      then have "butlast articles = before @ x # butlast after"
        using sp(1) by (simp add: butlast_append)
      with sp(2) have "\<not> (\<forall>a'\<in>set (butlast articles). \<not> failed a')" by auto
      moreover have "inspected st @ before @ [x] \<noteq> inspected st @ articles"
        using False sp(1) by simp
      ultimately show ?thesis using ins by simp
    qed
  qed
qed

theorem exit_decision_stops_at_first_failure_witness:
  "failed \<lparr>articleId = ''1'', updateStatus = ERROR\<rparr>
   \<and> fst (onPublished (exampleEnv None (Inl Error) [])
        [\<lparr>articleId = ''0'', updateStatus = CREATED\<rparr>,
         \<lparr>articleId = ''1'', updateStatus = ERROR\<rparr>,
         \<lparr>articleId = ''2'', updateStatus = CREATED\<rparr>] start) = Exit 1
   \<and> inspected (snd (onPublished (exampleEnv None (Inl Error) [])
        [\<lparr>articleId = ''0'', updateStatus = CREATED\<rparr>,
         \<lparr>articleId = ''1'', updateStatus = ERROR\<rparr>,
         \<lparr>articleId = ''2'', updateStatus = CREATED\<rparr>] start))
       = [\<lparr>articleId = ''0'', updateStatus = CREATED\<rparr>,
          \<lparr>articleId = ''1'', updateStatus = ERROR\<rparr>]"
proof -
  have f: "failed \<lparr>articleId = ''1'', updateStatus = ERROR\<rparr>"
    by (simp add: failed_def)
  have b: "\<forall>a'\<in>set [\<lparr>articleId = ''0'', updateStatus = CREATED\<rparr>]. \<not> failed a'"
    by (simp add: failed_def)
  from exit_decision_stops_at_first_failure
         [of "\<lparr>articleId = ''1'', updateStatus = ERROR\<rparr>"
             "[\<lparr>articleId = ''0'', updateStatus = CREATED\<rparr>]"
             "exampleEnv None (Inl Error) []"
             "[\<lparr>articleId = ''2'', updateStatus = CREATED\<rparr>]" start] f b
  show ?thesis by (simp add: start_def)
qed

theorem exit_decision_short_circuit_counterexample:
  "failed \<lparr>articleId = ''0'', updateStatus = ERROR\<rparr>
   \<and> inspected (snd (onPublished (exampleEnv None (Inl Error) [])
        [\<lparr>articleId = ''0'', updateStatus = ERROR\<rparr>,
         \<lparr>articleId = ''1'', updateStatus = FAILED_TO_EXTRACT_FRONT_MATTER\<rparr>] start))
       = [\<lparr>articleId = ''0'', updateStatus = ERROR\<rparr>]
   \<and> inspected (snd (onPublished (exampleEnv None (Inl Error) [])
        [\<lparr>articleId = ''0'', updateStatus = ERROR\<rparr>,
         \<lparr>articleId = ''1'', updateStatus = FAILED_TO_EXTRACT_FRONT_MATTER\<rparr>] start))
       \<noteq> [\<lparr>articleId = ''0'', updateStatus = ERROR\<rparr>,
          \<lparr>articleId = ''1'', updateStatus = FAILED_TO_EXTRACT_FRONT_MATTER\<rparr>]"
  by (simp add: onPublished_def logger_def failed_def start_def)

text \<open>
  C3. Once the statuses are there, the process exits with a code other than 0 exactly
  when some status is an error or a malformed front matter, and the code is then 1. The
  statuses success, error, success give 1; success, success give 0; no status gives 0.
\<close>

theorem exit_code_reduction:
  "(exitCode (fst (onPublished env articles st)) \<noteq> 0 \<longleftrightarrow> (\<exists>a\<in>set articles. failed a))
   \<and> exitCode (fst (onPublished env articles st)) = (if \<exists>a\<in>set articles. failed a then 1 else 0)
   \<and> (failed a \<longleftrightarrow>
        updateStatus a = ERROR \<or> updateStatus a = FAILED_TO_EXTRACT_FRONT_MATTER)
   \<and> (DevToGit_new env st = (Inr cfg, st1) \<and> publishArticles env cfg st1 = (Inr articles, st2)
        \<longrightarrow> (exitCode (fst (main env st)) \<noteq> 0 \<longleftrightarrow> (\<exists>a\<in>set articles. failed a)))
   \<and> exitCode (fst (onPublished env
        [\<lparr>articleId = x, updateStatus = CREATED\<rparr>,
         \<lparr>articleId = y, updateStatus = ERROR\<rparr>,
         \<lparr>articleId = z, updateStatus = CREATED\<rparr>] st)) = 1
   \<and> exitCode (fst (onPublished env
        [\<lparr>articleId = x, updateStatus = CREATED\<rparr>,
         \<lparr>articleId = y, updateStatus = CREATED\<rparr>] st)) = 0
   \<and> exitCode (fst (onPublished env [] st)) = 0"
proof (intro conjI impI)
  show "exitCode (fst (onPublished env articles st)) \<noteq> 0 \<longleftrightarrow> (\<exists>a\<in>set articles. failed a)"
    by (simp add: onPublished_result)
  show "exitCode (fst (onPublished env articles st)) = (if \<exists>a\<in>set articles. failed a then 1 else 0)"
    by (simp add: onPublished_result)
  show "failed a \<longleftrightarrow> updateStatus a = ERROR \<or> updateStatus a = FAILED_TO_EXTRACT_FRONT_MATTER"
    by (simp add: failed_def)
next
  assume "DevToGit_new env st = (Inr cfg, st1) \<and> publishArticles env cfg st1 = (Inr articles, st2)"
  then have "main env st = onPublished env articles st2"
    by (intro main_published [of env st cfg st1]) simp_all
  then show "exitCode (fst (main env st)) \<noteq> 0 \<longleftrightarrow> (\<exists>a\<in>set articles. failed a)"
    by (simp add: onPublished_result)
next
  show "exitCode (fst (onPublished env
        [\<lparr>articleId = x, updateStatus = CREATED\<rparr>,
         \<lparr>articleId = y, updateStatus = ERROR\<rparr>,
         \<lparr>articleId = z, updateStatus = CREATED\<rparr>] st)) = 1"
    by (simp add: onPublished_result failed_def)
  show "exitCode (fst (onPublished env
        [\<lparr>articleId = x, updateStatus = CREATED\<rparr>,
         \<lparr>articleId = y, updateStatus = CREATED\<rparr>] st)) = 0"
    by (simp add: onPublished_result failed_def)
  show "exitCode (fst (onPublished env [] st)) = 0"
    by (simp add: onPublished_result)
qed

lemma example_run_resolves:
  "\<exists>st2. publishArticles (exampleEnv (Some ''https://example.com/alice/blog.git'') (Inl Error)
            [Inr ERROR, Inr CREATED, Inr UNCHANGED]) exampleCfg start
          = (Inr [\<lparr>articleId = ''0'', updateStatus = ERROR\<rparr>,
                  \<lparr>articleId = ''1'', updateStatus = CREATED\<rparr>,
                  \<lparr>articleId = ''2'', updateStatus = UNCHANGED\<rparr>], st2)"
proof -
  let ?env = "exampleEnv (Some ''https://example.com/alice/blog.git'') (Inl Error)
                [Inr ERROR, Inr CREATED, Inr UNCHANGED]"
  let ?articles =
    "[JObj [(''id'', JNum 1), (''relativePathToArticle'', JStr ''./one.md''),
            (''repository'', JObj [(''username'', JStr ''alice''), (''name'', JStr ''blog'')])],
      JObj [(''id'', JNum 2), (''relativePathToArticle'', JStr ''./two.md''),
            (''repository'', JObj [(''username'', JStr ''alice''), (''name'', JStr ''blog'')])],
      JObj [(''id'', JNum 3), (''relativePathToArticle'', JStr ''./three.md''),
            (''repository'', JObj [(''username'', JStr ''alice''), (''name'', JStr ''blog'')])]]"
  have cfg: "readConfigFile ?env exampleCfg = Inr ?articles"
    by (rule readConfigFile_example)
  have out: "outcomes ?env (devToToken exampleCfg) ?articles (world start)
               = [Inr \<lparr>articleId = ''0'', updateStatus = ERROR\<rparr>,
                  Inr \<lparr>articleId = ''1'', updateStatus = CREATED\<rparr>,
                  Inr \<lparr>articleId = ''2'', updateStatus = UNCHANGED\<rparr>]"
    using decimal_digits
    by (simp add: exampleEnv_def scriptedPublisher_def start_def del: decimal.simps)
  have ok: "\<forall>e. Inl e \<notin> set (outcomes ?env (devToToken exampleCfg) ?articles (world start))"
    unfolding out by simp
  from publishLoop_resolves [OF ok, of "[]"] obtain st2 where
    "publishLoop ?env exampleCfg ?articles [] start
       = (Inr ([] @ map projr (outcomes ?env (devToToken exampleCfg) ?articles (world start))), st2)"
    by blast
  then have "publishArticles ?env exampleCfg start
       = (Inr (map projr (outcomes ?env (devToToken exampleCfg) ?articles (world start))), st2)"
    unfolding publishArticles_loop [OF cfg] by simp
  then show ?thesis unfolding out by simp
qed

theorem exit_code_reduction_witness:
  "DevToGit_new (exampleEnv (Some ''https://example.com/alice/blog.git'') (Inl Error)
       [Inr ERROR, Inr CREATED, Inr UNCHANGED]) start = (Inr exampleCfg, start)
   \<and> fst (publishArticles (exampleEnv (Some ''https://example.com/alice/blog.git'') (Inl Error)
       [Inr ERROR, Inr CREATED, Inr UNCHANGED]) exampleCfg start)
       = Inr [\<lparr>articleId = ''0'', updateStatus = ERROR\<rparr>,
              \<lparr>articleId = ''1'', updateStatus = CREATED\<rparr>,
              \<lparr>articleId = ''2'', updateStatus = UNCHANGED\<rparr>]
   \<and> exitCode (fst (main (exampleEnv (Some ''https://example.com/alice/blog.git'') (Inl Error)
       [Inr ERROR, Inr CREATED, Inr UNCHANGED]) start)) \<noteq> 0"
proof -
  let ?env = "exampleEnv (Some ''https://example.com/alice/blog.git'') (Inl Error)
                [Inr ERROR, Inr CREATED, Inr UNCHANGED]"
  let ?statuses = "[\<lparr>articleId = ''0'', updateStatus = ERROR\<rparr>,
                    \<lparr>articleId = ''1'', updateStatus = CREATED\<rparr>,
                    \<lparr>articleId = ''2'', updateStatus = UNCHANGED\<rparr>]"
  have new: "DevToGit_new ?env start = (Inr exampleCfg, start)"
    by (rule DevToGit_new_example)
  obtain st2 where run: "publishArticles ?env exampleCfg start = (Inr ?statuses, st2)"
    using example_run_resolves by blast
  have "\<exists>a\<in>set ?statuses. failed a" by (simp add: failed_def)
  with exit_code_reduction [of ?env ?statuses start _ exampleCfg start st2] new run
  have "exitCode (fst (main ?env start)) \<noteq> 0" by blast
  with new run show ?thesis by simp
qed

subsection \<open>The spacing of the publish calls\<close>

lemma successively_nth:
  "successively P xs \<Longrightarrow> Suc i < length xs \<Longrightarrow> P (xs ! i) (xs ! Suc i)"
proof (induction P xs arbitrary: i rule: successively.induct)
  case (3 P x y xs)
  then show ?case by (cases i) auto
qed simp_all

text \<open>What \<open>admit\<close> does to a queue of one execution per interval: the first unit
  starts at once; a later one starts when the interval begun by the one before is
  over, and not before.\<close>

lemma admit_first:
  assumes "windowStart (queue st) = None"
  shows "clock (admit st) = clock st"
    and "queue (admit st) = (queue st)\<lparr>windowStart := Some (clock st), admitted := 1\<rparr>"
  using assms by (simp_all add: admit_def)

lemma admit_next:
  assumes "perInterval (queue st) = 1" and "windowStart (queue st) = Some begun"
    and "1 \<le> admitted (queue st)"
  shows "begun + interval (queue st) \<le> clock (admit st)"
    and "clock st \<le> clock (admit st)"
    and "queue (admit st) = (queue st)\<lparr>windowStart := Some (clock (admit st)), admitted := 1\<rparr>"
  using assms by (simp_all add: admit_def)

lemma publishLoop_spaced:
  assumes "perInterval (queue st) = 1" and "windowStart (queue st) = Some begun"
    and "1 \<le> admitted (queue st)"
  shows "\<exists>ts. started (snd (publishLoop env cfg articles acc st)) = started st @ ts
           \<and> length (attempted (snd (publishLoop env cfg articles acc st)))
               = length (attempted st) + length ts
           \<and> successively (\<lambda>a b. a + interval (queue st) \<le> b) (begun # ts)"
  using assms
proof (induction articles arbitrary: acc st begun)
  case Nil
  then show ?case by simp
next
  case (Cons articleConf rest)
  obtain r w' where call: "publishArticle env articleConf (devToToken cfg) (world st) = (r, w')"
    by (cases "publishArticle env articleConf (devToToken cfg) (world st)")
  let ?st1 = "afterCall env articleConf w' (admit st)"
  let ?t = "clock (admit st)"
  note adm = admit_next [OF Cons.prems]
  have t: "begun + interval (queue st) \<le> ?t" by (rule adm(1))
  have st1: "started ?st1 = started st @ [?t]" "attempted ?st1 = attempted st @ [articleConf]"
    by (simp_all add: afterCall_fields admit_fields)
  show ?case
  proof (cases r)
    case (Inl e)
    with call have "publishLoop env cfg (articleConf # rest) acc st = (Inl e, ?st1)"
      by (intro turn_rejects) simp
    with st1 t show ?thesis by simp
  next
    case (Inr status)
    with call have step: "publishLoop env cfg (articleConf # rest) acc st
        = publishLoop env cfg rest (acc @ [status]) ?st1"
      by (intro turn_resolves) simp
    have q: "queue ?st1 = (queue st)\<lparr>windowStart := Some ?t, admitted := 1\<rparr>"
      using adm(3) by (simp add: afterCall_fields)
    then have "perInterval (queue ?st1) = 1" "windowStart (queue ?st1) = Some ?t"
      "1 \<le> admitted (queue ?st1)" and i: "interval (queue ?st1) = interval (queue st)"
      using Cons.prems(1) by simp_all
    from Cons.IH [OF this(1,2,3), of "acc @ [status]"] obtain ts where
      ts: "started (snd (publishLoop env cfg rest (acc @ [status]) ?st1)) = started ?st1 @ ts"
        "length (attempted (snd (publishLoop env cfg rest (acc @ [status]) ?st1)))
           = length (attempted ?st1) + length ts"
        "successively (\<lambda>a b. a + interval (queue st) \<le> b) (?t # ts)"
      unfolding i by blast
    have "started (snd (publishLoop env cfg (articleConf # rest) acc st)) = started st @ (?t # ts)"
      unfolding step using ts(1) st1(1) by simp
    moreover have "length (attempted (snd (publishLoop env cfg (articleConf # rest) acc st)))
           = length (attempted st) + length (?t # ts)"
      unfolding step using ts(2) st1(2) by simp
    moreover have "successively (\<lambda>a b. a + interval (queue st) \<le> b) (begun # ?t # ts)"
      using ts(3) t by simp
    ultimately show ?thesis by blast
  qed
qed

lemma publishLoop_spaced_first:
  assumes "perInterval (queue st) = 1" and "windowStart (queue st) = None"
  shows "\<exists>ts. started (snd (publishLoop env cfg articles acc st)) = started st @ ts
           \<and> length (attempted (snd (publishLoop env cfg articles acc st)))
               = length (attempted st) + length ts
           \<and> successively (\<lambda>a b. a + interval (queue st) \<le> b) ts
           \<and> (ts \<noteq> [] \<longrightarrow> ts ! 0 = clock st)"
proof (cases articles)
  case Nil
  then show ?thesis by simp
next
  case (Cons articleConf rest)
  obtain r w' where call: "publishArticle env articleConf (devToToken cfg) (world st) = (r, w')"
    by (cases "publishArticle env articleConf (devToToken cfg) (world st)")
  let ?st1 = "afterCall env articleConf w' (admit st)"
  note adm = admit_first [OF assms(2)]
  have st1: "started ?st1 = started st @ [clock st]" "attempted ?st1 = attempted st @ [articleConf]"
    by (simp_all add: afterCall_fields admit_fields adm(1))
  show ?thesis
  proof (cases r)
    case (Inl e)
    with call have "publishLoop env cfg (articleConf # rest) acc st = (Inl e, ?st1)"
      by (intro turn_rejects) simp
    with st1 Cons show ?thesis by simp
  next
    case (Inr status)
    with call have step: "publishLoop env cfg (articleConf # rest) acc st
        = publishLoop env cfg rest (acc @ [status]) ?st1"
      by (intro turn_resolves) simp
    have q: "queue ?st1 = (queue st)\<lparr>windowStart := Some (clock st), admitted := 1\<rparr>"
      using adm(2) by (simp add: afterCall_fields)
    then have "perInterval (queue ?st1) = 1" "windowStart (queue ?st1) = Some (clock st)"
      "1 \<le> admitted (queue ?st1)" and i: "interval (queue ?st1) = interval (queue st)"
      using assms(1) by simp_all
    from publishLoop_spaced [OF this(1,2,3), of env cfg rest "acc @ [status]"] obtain ts where
      ts: "started (snd (publishLoop env cfg rest (acc @ [status]) ?st1)) = started ?st1 @ ts"
        "length (attempted (snd (publishLoop env cfg rest (acc @ [status]) ?st1)))
           = length (attempted ?st1) + length ts"
        "successively (\<lambda>a b. a + interval (queue st) \<le> b) (clock st # ts)"
      unfolding i by blast
    have "started (snd (publishLoop env cfg articles acc st)) = started st @ (clock st # ts)"
      unfolding Cons step using ts(1) st1(1) by simp
    moreover have "length (attempted (snd (publishLoop env cfg articles acc st)))
           = length (attempted st) + length (clock st # ts)"
      unfolding Cons step using ts(2) st1(2) by simp
    ultimately show ?thesis using ts(3) by (intro exI [of _ "clock st # ts"]) simp
  qed
qed

lemma DevToGit_new_queue:
  assumes "DevToGit_new env st = (Inr cfg, st1)"
  shows "queue st1 = throttledQueue 1 ARTICLE_UPLOAD_INTERVAL"
  using assms
  by (auto simp: DevToGit_new_def split: prod.splits sum.splits if_splits)

lemma main_started:
  assumes "DevToGit_new env st = (Inr cfg, st1)"
  shows "started (snd (main env st)) = started (snd (publishArticles env cfg st1))"
proof (cases "publishArticles env cfg st1")
  case (Pair r st2)
  show ?thesis
  proof (cases r)
    case (Inl e)
    with Pair have "main env st = (Exit 1, console_error e (logger (Red publishDiagnostic) st2))"
      by (intro main_rejected [OF assms]) simp
    with Pair show ?thesis by (simp add: console_error_def logger_def)
  next
    case (Inr articles)
    with Pair have "main env st = onPublished env articles st2"
      by (intro main_published [OF assms]) simp
    with Pair show ?thesis by (simp add: onPublished_result)
  qed
qed

text \<open>
  C5. In a run, the queue the constructor builds is
  \<^verbatim>\<open>throttledQueue(1, ARTICLE_UPLOAD_INTERVAL)\<close> whatever the options and the
  environment, and its interval is 3000 milliseconds. The publish calls of the run
  start at times of which each is at least 3000 milliseconds after the one before, and
  the first call starts at the time \<open>publishArticles\<close> is entered, with no delay. One
  start is recorded for every attempted configuration.
\<close>

theorem publish_calls_spaced:
  assumes "DevToGit_new env st = (Inr cfg, st1)"
  shows "\<exists>ts. started (snd (publishArticles env cfg st1)) = started st1 @ ts
           \<and> started (snd (main env st)) = started st1 @ ts
           \<and> length (attempted (snd (publishArticles env cfg st1)))
               = length (attempted st1) + length ts
           \<and> (\<forall>i. Suc i < length ts \<longrightarrow> ts ! i + 3000 \<le> ts ! Suc i)
           \<and> (ts \<noteq> [] \<longrightarrow> ts ! 0 = clock st1)
           \<and> queue st1 = throttledQueue 1 ARTICLE_UPLOAD_INTERVAL
           \<and> interval (queue st1) = 3000"
proof -
  note q = DevToGit_new_queue [OF assms]
  then have q1: "perInterval (queue st1) = 1" "windowStart (queue st1) = None"
    and i: "interval (queue st1) = 3000"
    by (simp_all add: throttledQueue_def ARTICLE_UPLOAD_INTERVAL_def)
  have "\<exists>ts. started (snd (publishArticles env cfg st1)) = started st1 @ ts
           \<and> length (attempted (snd (publishArticles env cfg st1)))
               = length (attempted st1) + length ts
           \<and> successively (\<lambda>a b. a + 3000 \<le> b) ts
           \<and> (ts \<noteq> [] \<longrightarrow> ts ! 0 = clock st1)"
  proof (cases "readConfigFile env cfg")
    case (Inl e)
    then have "publishArticles env cfg st1 = (Inl e, st1)" by (simp add: publishArticles_def)
    then show ?thesis by simp
  next
    case (Inr articles)
    from publishLoop_spaced_first [OF q1, of env cfg articles "[]"] show ?thesis
      unfolding publishArticles_loop [OF Inr] i .
  qed
  then obtain ts where
    ts: "started (snd (publishArticles env cfg st1)) = started st1 @ ts"
      "length (attempted (snd (publishArticles env cfg st1))) = length (attempted st1) + length ts"
      "successively (\<lambda>a b. a + 3000 \<le> b) ts"
      "ts \<noteq> [] \<longrightarrow> ts ! 0 = clock st1"
    by blast
  have "\<forall>i. Suc i < length ts \<longrightarrow> ts ! i + 3000 \<le> ts ! Suc i"
    using successively_nth [OF ts(3)] by blast
  moreover have "started (snd (main env st)) = started st1 @ ts"
    using main_started [OF assms] ts(1) by simp
  ultimately show ?thesis using ts(1,2,4) q i by blast
qed

lemma example_run_started:
  "started (snd (main (exampleEnv (Some ''https://example.com/alice/blog.git'') (Inl Error)
       [Inr CREATED, Inr CREATED, Inr CREATED]) start)) = [0, 3000, 6200]"
proof -
  let ?env = "exampleEnv (Some ''https://example.com/alice/blog.git'') (Inl Error)
                [Inr CREATED, Inr CREATED, Inr CREATED]"
  have new: "DevToGit_new ?env start = (Inr exampleCfg, start)"
    by (rule DevToGit_new_example)
  have "started (snd (publishArticles ?env exampleCfg start)) = [0, 3000, 6200]"
    unfolding publishArticles_loop [OF readConfigFile_example]
    using decimal_digits
    by (simp add: this_queue_def admit_def afterCall_def Article_publishArticle_def
        exampleEnv_def scriptedPublisher_def start_def throttledQueue_def
        ARTICLE_UPLOAD_INTERVAL_def exampleCfg_def del: decimal.simps)
  with main_started [OF new] show ?thesis by simp
qed

theorem publish_calls_spaced_witness:
  "DevToGit_new (exampleEnv (Some ''https://example.com/alice/blog.git'') (Inl Error)
       [Inr CREATED, Inr CREATED, Inr CREATED]) start = (Inr exampleCfg, start)
   \<and> clock start = 0
   \<and> started (snd (main (exampleEnv (Some ''https://example.com/alice/blog.git'') (Inl Error)
       [Inr CREATED, Inr CREATED, Inr CREATED]) start)) = [0, 3000, 6200]
   \<and> interval (queue start) = 3000"
proof -
  let ?env = "exampleEnv (Some ''https://example.com/alice/blog.git'') (Inl Error)
                [Inr CREATED, Inr CREATED, Inr CREATED]"
  have new: "DevToGit_new ?env start = (Inr exampleCfg, start)"
    by (rule DevToGit_new_example)
  from publish_calls_spaced [OF new] obtain ts where
    "started (snd (main ?env start)) = started start @ ts"
    "\<forall>i. Suc i < length ts \<longrightarrow> ts ! i + 3000 \<le> ts ! Suc i"
    "interval (queue start) = 3000"
    by blast
  with new example_run_started show ?thesis by (simp add: start_def)
qed

end
